theory Spec2Isabelle
  imports
    Complex_Main
    "HOL-Library.Word"
    "HOL-Library.Log_Nat"
    "HOL-Library.Multiset"
    "HOL-Library.Char_ord"
    "HOL-Library.List_Lexorder"
    "HOL-Library.Product_Lexorder"
begin

section \<open>Single-precision floating point\<close>

text \<open>
  The program stores every temperature, sum, minimum and maximum in a C++ \<open>float\<close>
  (IEEE 754 binary32, round to nearest, ties to even). A value of the model is an exact
  rational that binary32 can hold, a negative zero, an infinity or a NaN. \<open>Fin 0\<close> is the
  positive zero. Every arithmetic operation computes the exact rational result and rounds
  it once, as the hardware does (no fused multiply-add).
\<close>

datatype f32 = Fin rat | NegZero | PInf | NInf | NaN

definition pow2 :: "int \<Rightarrow> rat" where
  "pow2 e = (if 0 \<le> e then 2 ^ nat e else 1 / 2 ^ nat (- e))"

definition round_half_even :: "rat \<Rightarrow> int" where
  "round_half_even x =
     (let f = \<lfloor>x\<rfloor>; r = x - of_int f
      in if r < 1 / 2 then f else if 1 / 2 < r then f + 1 else if even f then f else f + 1)"

text \<open>\<open>flog2 q\<close> is the binary exponent of a positive rational: \<open>2 ^ flog2 q \<le> q < 2 ^ (flog2 q + 1)\<close>.\<close>

definition flog2 :: "rat \<Rightarrow> int" where
  "flog2 q =
     (case quotient_of q of (a, b) \<Rightarrow>
        let e = bitlen a - bitlen b in if pow2 e \<le> q then e else e - 1)"

text \<open>
  The unit in the last place of binary32 at \<open>q\<close>: 24 significant bits for a normal number,
  the fixed spacing \<open>2 ^ - 149\<close> below the smallest normal number \<open>2 ^ - 126\<close>.
\<close>

definition ulp_exp :: "rat \<Rightarrow> int" where
  "ulp_exp q = max (flog2 \<bar>q\<bar>) (- 126) - 23"

definition rne :: "rat \<Rightarrow> rat" where
  "rne q = (if q = 0 then 0
            else of_int (round_half_even (q / pow2 (ulp_exp q))) * pow2 (ulp_exp q))"

text \<open>Rounding an exact non-zero result: overflow gives an infinity, underflow a signed zero.\<close>

definition f32_round :: "rat \<Rightarrow> f32" where
  "f32_round q =
     (let r = rne q
      in if 2 ^ 128 \<le> r then PInf
         else if r \<le> - (2 ^ 128) then NInf
         else if r = 0 \<and> q < 0 then NegZero
         else Fin r)"

definition is_zero :: "f32 \<Rightarrow> bool" where
  "is_zero x = (x = Fin 0 \<or> x = NegZero)"

definition is_inf :: "f32 \<Rightarrow> bool" where
  "is_inf x = (x = PInf \<or> x = NInf)"

fun fsign :: "f32 \<Rightarrow> bool" where
  "fsign (Fin q) = (q < 0)"
| "fsign NegZero = True"
| "fsign PInf = False"
| "fsign NInf = True"
| "fsign NaN = False"

fun fval :: "f32 \<Rightarrow> rat" where
  "fval (Fin q) = q"
| "fval _ = 0"

fun fneg :: "f32 \<Rightarrow> f32" where
  "fneg (Fin q) = (if q = 0 then NegZero else Fin (- q))"
| "fneg NegZero = Fin 0"
| "fneg PInf = NInf"
| "fneg NInf = PInf"
| "fneg NaN = NaN"

definition fadd :: "f32 \<Rightarrow> f32 \<Rightarrow> f32" where
  "fadd x y =
     (if x = NaN \<or> y = NaN then NaN
      else if is_inf x \<and> is_inf y then (if x = y then x else NaN)
      else if is_inf x then x
      else if is_inf y then y
      else if x = NegZero \<and> y = NegZero then NegZero
      else if fval x + fval y = 0 then Fin 0
      else f32_round (fval x + fval y))"

definition fmul :: "f32 \<Rightarrow> f32 \<Rightarrow> f32" where
  "fmul x y =
     (if x = NaN \<or> y = NaN then NaN
      else if is_inf x \<or> is_inf y then
        (if is_zero x \<or> is_zero y then NaN
         else if fsign x \<noteq> fsign y then NInf else PInf)
      else if fval x * fval y = 0 then (if fsign x \<noteq> fsign y then NegZero else Fin 0)
      else f32_round (fval x * fval y))"

definition fdiv :: "f32 \<Rightarrow> f32 \<Rightarrow> f32" where
  "fdiv x y =
     (if x = NaN \<or> y = NaN then NaN
      else if is_inf x then
        (if is_inf y then NaN else if fsign x \<noteq> fsign y then NInf else PInf)
      else if is_inf y then (if fsign x \<noteq> fsign y then NegZero else Fin 0)
      else if is_zero y then
        (if is_zero x then NaN else if fsign x \<noteq> fsign y then NInf else PInf)
      else if is_zero x then (if fsign x \<noteq> fsign y then NegZero else Fin 0)
      else f32_round (fval x / fval y))"

text \<open>The comparison \<open><\<close> of two floats: false whenever an operand is a NaN; the two zeros are equal.\<close>

fun flt :: "f32 \<Rightarrow> f32 \<Rightarrow> bool" where
  "flt NaN _ = False"
| "flt _ NaN = False"
| "flt PInf _ = False"
| "flt _ NInf = False"
| "flt NInf _ = True"
| "flt _ PInf = True"
| "flt x y = (fval x < fval y)"

definition fgt :: "f32 \<Rightarrow> f32 \<Rightarrow> bool" where
  "fgt x y = flt y x"

definition fle :: "f32 \<Rightarrow> f32 \<Rightarrow> bool" where
  "fle x y = (x \<noteq> NaN \<and> y \<noteq> NaN \<and> \<not> flt y x)"

definition feq :: "f32 \<Rightarrow> f32 \<Rightarrow> bool" where
  "feq x y = (fle x y \<and> fle y x)"

text \<open>Conversions from the integer types to \<open>float\<close> round like any other operation.\<close>

definition f32_of_int :: "int \<Rightarrow> f32" where
  "f32_of_int n = (if n = 0 then Fin 0 else f32_round (of_int n))"

definition f32_of_u64 :: "64 word \<Rightarrow> f32" where
  "f32_of_u64 w = f32_of_int (uint w)"

text \<open>The literal \<open>0.1f\<close>: the binary32 value nearest to one tenth.\<close>

definition tenth :: f32 where
  "tenth = Fin (13421773 / 134217728)"

section \<open>Bytes, memory and errors\<close>

text \<open>
  The input file is an array of bytes. A \<open>const char*\<close> is modelled by the list of the bytes
  from the pointer to the end of the mapped file, a \<open>size_t\<close> by a natural number (every
  offset the program computes is at most the file size plus one, so none wraps). A read
  past the last byte of the file, undefined behaviour in C++, is the error \<open>OutOfBounds\<close>.
\<close>

datatype error = OutOfBounds | DivisionByZero | MapFailed | NotASchedule

definition read_at :: "char list \<Rightarrow> nat \<Rightarrow> error + char" where
  "read_at str i = (if i < length str then Inr (str ! i) else Inl OutOfBounds)"

definition NL :: char where
  "NL = CHR 0x0A"

text \<open>
  \<open>str[i] - '0'\<close>: both operands are promoted to \<open>int\<close>; \<open>char\<close> is signed on the
  x86-64 Linux target of this \<open>mmap\<close>-based program.
\<close>

definition char_to_int :: "char \<Rightarrow> int" where
  "char_to_int c = (let n = of_char c in if n < 128 then n else n - 256)"

definition digit_of :: "char \<Rightarrow> f32" where
  "digit_of c = f32_of_int (char_to_int c - char_to_int CHR ''0'')"

section \<open>\<open>parse_float\<close>\<close>

text \<open>The loop over the integer part; it returns the accumulator and the index where it stopped.\<close>

function int_loop :: "char list \<Rightarrow> nat \<Rightarrow> f32 \<Rightarrow> nat \<Rightarrow> error + (f32 \<times> nat)" where
  "int_loop str len result i =
     (if i < len then
        (case read_at str i of
           Inl e \<Rightarrow> Inl e
         | Inr c \<Rightarrow>
             if c \<noteq> CHR ''.''
             then int_loop str len (fadd (fmul result (Fin 10)) (digit_of c)) (i + 1)
             else Inr (result, i))
      else Inr (result, i))"
  by pat_completeness auto

termination
  by (relation "measure (\<lambda>(str, len, result, i). len - i)") auto

declare int_loop.simps [simp del]

text \<open>The loop over the fraction part.\<close>

function frac_loop :: "char list \<Rightarrow> nat \<Rightarrow> f32 \<Rightarrow> f32 \<Rightarrow> nat \<Rightarrow> error + f32" where
  "frac_loop str len result fraction i =
     (if i < len then
        (case read_at str i of
           Inl e \<Rightarrow> Inl e
         | Inr c \<Rightarrow>
             let fraction' = fmul fraction tenth
             in frac_loop str len (fadd result (fmul (digit_of c) fraction')) fraction' (i + 1))
      else Inr result)"
  by pat_completeness auto

termination
  by (relation "measure (\<lambda>(str, len, result, fraction, i). len - i)") auto

declare frac_loop.simps [simp del]

definition parse_float :: "char list \<Rightarrow> nat \<Rightarrow> error + f32" where
  "parse_float str len =
     (case read_at str 0 of
        Inl e \<Rightarrow> Inl e
      | Inr c0 \<Rightarrow>
          let negative = (c0 = CHR ''-'');
              i0 = (if negative then 1 else 0)
          in case int_loop str len (Fin 0) i0 of
               Inl e \<Rightarrow> Inl e
             | Inr (result, i) \<Rightarrow>
                 (case (if i < len
                        then (case read_at str i of
                                Inl e \<Rightarrow> Inl e
                              | Inr c \<Rightarrow>
                                  if c = CHR ''.''
                                  then frac_loop str len result (Fin 1) (i + 1)
                                  else Inr result)
                        else Inr result) of
                    Inl e \<Rightarrow> Inl e
                  | Inr result' \<Rightarrow> Inr (if negative then fneg result' else result')))"

section \<open>The aggregation table\<close>

record locationData =
  count :: "64 word"
  total :: f32
  temp_min :: f32
  temp_max :: f32

definition default_data :: locationData where
  "default_data = \<lparr>count = 0, total = Fin 0, temp_min = Fin 99, temp_max = Fin (- 99)\<rparr>"

text \<open>
  \<open>std::unordered_map<std::string, locationData>\<close> is a list of entries with distinct
  keys. The C++ standard leaves the iteration order of the container unspecified; the model
  iterates in the order in which the keys were first inserted. Nothing below that is stated
  through \<open>lookup\<close> depends on this choice.
\<close>

type_synonym table = "(string \<times> locationData) list"

fun lookup :: "table \<Rightarrow> string \<Rightarrow> locationData option" where
  "lookup [] k = None"
| "lookup ((k', v) # t) k = (if k' = k then Some v else lookup t k)"

text \<open>
  \<open>auto& r = m[k]; ... r ...\<close>: the entry of \<open>k\<close>, created with the default value when the
  key is new, is updated in place by \<open>f\<close>.
\<close>

fun modify_at :: "string \<Rightarrow> (locationData \<Rightarrow> locationData) \<Rightarrow> table \<Rightarrow> table" where
  "modify_at k f [] = [(k, f default_data)]"
| "modify_at k f ((k', v) # t) =
     (if k' = k then (k', f v) # t else (k', v) # modify_at k f t)"

text \<open>The statements of \<open>process_line\<close> after the lookup, lines 71 to 78.\<close>

definition update_stats :: "f32 \<Rightarrow> locationData \<Rightarrow> locationData" where
  "update_stats temperature_num loc_value =
     (let v1 = loc_value\<lparr>count := count loc_value + 1\<rparr>;
          v2 = v1\<lparr>total := fadd (total v1) temperature_num\<rparr>;
          v3 = (if flt (temp_max v2) temperature_num
                then v2\<lparr>temp_max := temperature_num\<rparr> else v2)
      in if fgt (temp_min v3) temperature_num
         then v3\<lparr>temp_min := temperature_num\<rparr> else v3)"

text \<open>The body of the merge loop in \<open>main\<close>, lines 149 to 156.\<close>

definition merge_stats :: "locationData \<Rightarrow> locationData \<Rightarrow> locationData" where
  "merge_stats val loc_value =
     (let v1 = loc_value\<lparr>count := count loc_value + count val\<rparr>;
          v2 = v1\<lparr>total := fadd (total v1) (total val)\<rparr>;
          v3 = (if flt (temp_max v2) (temp_max val)
                then v2\<lparr>temp_max := temp_max val\<rparr> else v2)
      in if fgt (temp_min v3) (temp_min val)
         then v3\<lparr>temp_min := temp_min val\<rparr> else v3)"

section \<open>\<open>process_line\<close> and \<open>process_chunk\<close>\<close>

text \<open>A \<open>std::string_view\<close> is a pointer into the file and a length.\<close>

record string_view =
  sv_data :: nat
  sv_size :: nat

definition sv_bytes :: "char list \<Rightarrow> string_view \<Rightarrow> char list" where
  "sv_bytes data line = take (sv_size line) (drop (sv_data line) data)"

text \<open>
  \<open>line.find(c)\<close>: the index of the first occurrence, \<open>None\<close> for \<open>npos\<close>. The bytes of
  a view that reaches past the end of the file cannot be read: \<open>process_line\<close> on such a
  view is \<open>OutOfBounds\<close> (\<open>process_chunk\<close> never builds one on a range inside the file).
\<close>

fun find_char :: "char \<Rightarrow> char list \<Rightarrow> nat option" where
  "find_char c [] = None"
| "find_char c (x # xs) =
     (if x = c then Some 0 else (case find_char c xs of None \<Rightarrow> None | Some n \<Rightarrow> Some (n + 1)))"

definition process_line :: "char list \<Rightarrow> string_view \<Rightarrow> table \<Rightarrow> error + table" where
  "process_line data line loc_data =
     (if length data < sv_data line + sv_size line then Inl OutOfBounds
      else case find_char CHR '';'' (sv_bytes data line) of
        None \<Rightarrow> Inr loc_data
      | Some delimiter_pos \<Rightarrow>
          let location = take delimiter_pos (sv_bytes data line)
          in case parse_float (drop (sv_data line + delimiter_pos + 1) data)
                              (sv_size line - delimiter_pos - 1) of
               Inl e \<Rightarrow> Inl e
             | Inr temperature_num \<Rightarrow>
                 Inr (modify_at location (update_stats temperature_num) loc_data))"

text \<open>The inner loop of \<open>process_chunk\<close>: advance to the next newline or to \<open>end\<close>.\<close>

function scan_line :: "char list \<Rightarrow> nat \<Rightarrow> nat \<Rightarrow> error + nat" where
  "scan_line data end i =
     (if i < end then
        (case read_at data i of
           Inl e \<Rightarrow> Inl e
         | Inr c \<Rightarrow> if c \<noteq> NL then scan_line data end (i + 1) else Inr i)
      else Inr i)"
  by pat_completeness auto

termination
  by (relation "measure (\<lambda>(data, end, i). end - i)") auto

declare scan_line.simps [simp del]

function process_chunk_from :: "char list \<Rightarrow> nat \<Rightarrow> nat \<Rightarrow> table \<Rightarrow> error + table" where
  "process_chunk_from data end i loc_data =
     (if i < end then
        (case scan_line data end i of
           Inl e \<Rightarrow> Inl e
         | Inr j \<Rightarrow>
             (case process_line data \<lparr>sv_data = i, sv_size = j - i\<rparr> loc_data of
                Inl e \<Rightarrow> Inl e
              | Inr loc_data' \<Rightarrow> process_chunk_from data end (j + 1) loc_data'))
      else Inr loc_data)"
  by pat_completeness auto

termination
proof (relation "measure (\<lambda>(data, end, i, loc_data). end - i)")
  show "wf (measure (\<lambda>(data, end, i, loc_data). end - i))" by simp
next
  fix data :: "char list" and "end" i :: nat and loc_data loc_data' :: table and j :: nat
  assume "i < end" and scan: "scan_line data end i = Inr j"
  have "scan_line d e k = Inr m \<Longrightarrow> k \<le> m" for d e k m
  proof (induction d e k rule: scan_line.induct)
    case (1 d e k)
    note unfold = scan_line.simps [of d e k]
    show ?case
    proof (cases "k < e")
      case False
      with "1.prems" unfold show ?thesis by simp
    next
      case True
      show ?thesis
      proof (cases "read_at d k")
        case (Inl x)
        with True "1.prems" unfold show ?thesis by simp
      next
        case (Inr c)
        show ?thesis
        proof (cases "c = NL")
          case True
          with \<open>k < e\<close> Inr "1.prems" unfold show ?thesis by simp
        next
          case False
          with \<open>k < e\<close> Inr "1.prems" unfold have "scan_line d e (k + 1) = Inr m" by simp
          with "1.IH" [OF \<open>k < e\<close> Inr False] show ?thesis by simp
        qed
      qed
    qed
  qed
  from this [OF scan] have "i \<le> j" .
  with \<open>i < end\<close>
  show "((data, end, j + 1, loc_data'), (data, end, i, loc_data))
          \<in> measure (\<lambda>(data, end, i, loc_data). end - i)"
    by simp
qed

declare process_chunk_from.simps [simp del]

definition process_chunk :: "char list \<Rightarrow> nat \<Rightarrow> nat \<Rightarrow> table \<Rightarrow> error + table" where
  "process_chunk data start_pos end loc_data = process_chunk_from data end start_pos loc_data"

section \<open>\<open>main\<close>: chunks, workers, merge and report\<close>

text \<open>Lines 134, 139 and 140: the range of worker \<open>i\<close> of \<open>num_threads\<close> on a file of \<open>st_size\<close> bytes.\<close>

definition chunk_range :: "nat \<Rightarrow> nat \<Rightarrow> nat \<Rightarrow> nat \<times> nat" where
  "chunk_range st_size num_threads i =
     (let chunk_size = st_size div num_threads;
          start_pos = i * chunk_size;
          end = (if i = num_threads - 1 then st_size else (i + 1) * chunk_size)
      in (start_pos, end))"

definition chunks :: "nat \<Rightarrow> nat \<Rightarrow> (nat \<times> nat) list" where
  "chunks st_size num_threads = map (chunk_range st_size num_threads) [0..<num_threads]"

text \<open>The first half of a worker: its private table.\<close>

definition worker :: "char list \<Rightarrow> nat \<times> nat \<Rightarrow> error + table" where
  "worker data r = process_chunk data (fst r) (snd r) []"

text \<open>The second half, under the lock: fold the private table into the shared one.\<close>

definition merge_into :: "table \<Rightarrow> table \<Rightarrow> table" where
  "merge_into local_loc_data loc_data =
     fold (\<lambda>(key, val) g. modify_at key (merge_stats val) g) local_loc_data loc_data"

text \<open>
  The workers run concurrently, each on its own table, and take the lock once, in an order
  the scheduler chooses: \<open>order\<close> lists the workers in the order in which they merge,
  every worker once (a list that is not such an order stands for no run of the program:
  \<open>NotASchedule\<close>). \<open>std::thread::hardware_concurrency()\<close> may return 0, and then line
  134 divides by zero; \<open>mmap\<close> refuses an empty file. A worker that reads out of bounds
  takes the run with it.
\<close>

fun collect :: "(error + 'a) list \<Rightarrow> error + 'a list" where
  "collect [] = Inr []"
| "collect (Inl e # rs) = Inl e"
| "collect (Inr x # rs) = (case collect rs of Inl e \<Rightarrow> Inl e | Inr xs \<Rightarrow> Inr (x # xs))"

definition main_run :: "char list \<Rightarrow> nat \<Rightarrow> nat list \<Rightarrow> error + table" where
  "main_run file_data num_threads order =
     (if file_data = [] then Inl MapFailed
      else if num_threads = 0 then Inl DivisionByZero
      else if sort order \<noteq> [0..<num_threads] then Inl NotASchedule
      else case collect (map (worker file_data) (chunks (length file_data) num_threads)) of
             Inl e \<Rightarrow> Inl e
           | Inr locals \<Rightarrow> Inr (fold merge_into (map (\<lambda>w. locals ! w) order) []))"

text \<open>
  Lines 176 to 179: one output line per entry of the table, in iteration order. A line is
  kept as its five fields; the decimal rendering of the numbers is not modelled.
\<close>

record report_line =
  line_key :: string
  line_count :: "64 word"
  line_average :: f32
  line_min :: f32
  line_max :: f32

definition report :: "table \<Rightarrow> report_line list" where
  "report loc_data =
     map (\<lambda>(key, val).
            \<lparr>line_key = key, line_count = count val,
             line_average = fdiv (total val) (f32_of_u64 (count val)),
             line_min = temp_min val, line_max = temp_max val\<rparr>) loc_data"

section \<open>The lines of a chunk, in the words of the specification\<close>

text \<open>The bytes of the half-open range \<open>[start, end)\<close> of the file.\<close>

definition chunk_bytes :: "char list \<Rightarrow> nat \<Rightarrow> nat \<Rightarrow> char list" where
  "chunk_bytes data start end = take (end - start) (drop start data)"

text \<open>
  The lines of a byte sequence as the specification words them: a line extends to the next
  newline byte or to the end, whichever comes first; the newline is not part of the line
  and is skipped; what follows the last newline is a line of its own unless it is empty.
\<close>

function lines_of :: "char list \<Rightarrow> char list list" where
  "lines_of [] = []"
| "lines_of (b # bs) =
     (let l = takeWhile (\<lambda>c. c \<noteq> NL) (b # bs)
      in l # lines_of (drop (length l + 1) (b # bs)))"
  by pat_completeness auto

termination
  by (relation "measure length") auto

declare lines_of.simps [simp del]

text \<open>The same lines as views into the file, \<open>p\<close> being the offset of the first byte.\<close>

function line_views :: "nat \<Rightarrow> char list \<Rightarrow> string_view list" where
  "line_views p [] = []"
| "line_views p (b # bs) =
     (let n = length (takeWhile (\<lambda>c. c \<noteq> NL) (b # bs))
      in \<lparr>sv_data = p, sv_size = n\<rparr> # line_views (p + n + 1) (drop (n + 1) (b # bs)))"
  by pat_completeness auto

termination
  by (relation "measure (\<lambda>(p, bs). length bs)") auto

declare line_views.simps [simp del]

text \<open>Handing a list of lines to a line handler, in order, until one fails.\<close>

fun run_lines :: "(string_view \<Rightarrow> table \<Rightarrow> error + table) \<Rightarrow> string_view list \<Rightarrow> table \<Rightarrow> error + table" where
  "run_lines handler [] t = Inr t"
| "run_lines handler (l # ls) t =
     (case handler l t of Inl e \<Rightarrow> Inl e | Inr t' \<Rightarrow> run_lines handler ls t')"

section \<open>Decimal literals, in the words of the specification\<close>

text \<open>
  The decimal literals of the specification: an optional leading minus, zero or more
  integer digits, an optional point followed by zero or more fractional digits. A literal
  is given by its parts: the sign, the integer digits \<open>ds\<close> and the fractional digits
  \<open>fs\<close> (\<open>None\<close> when there is no point).
\<close>

definition is_digit :: "char \<Rightarrow> bool" where
  "is_digit c = (c \<in> set ''0123456789'')"

definition digit_value :: "char \<Rightarrow> int" where
  "digit_value c = of_char c - 48"

text \<open>
  The value of a literal as the specification words it, in float arithmetic: the integer
  part by repeated multiply-by-10-and-add, the fractional part by adding each digit times a
  factor that is multiplied by \<open>0.1f\<close> per digit, the result negated after a leading minus.
\<close>

definition int_step :: "f32 \<Rightarrow> char \<Rightarrow> f32" where
  "int_step r c = fadd (fmul r (Fin 10)) (f32_of_int (digit_value c))"

definition int_part :: "char list \<Rightarrow> f32" where
  "int_part ds = foldl int_step (Fin 0) ds"

definition frac_step :: "f32 \<times> f32 \<Rightarrow> char \<Rightarrow> f32 \<times> f32" where
  "frac_step rp c =
     (let p' = fmul (snd rp) tenth
      in (fadd (fst rp) (fmul (f32_of_int (digit_value c)) p'), p'))"

definition frac_part :: "f32 \<Rightarrow> char list \<Rightarrow> f32" where
  "frac_part r fs = fst (foldl frac_step (r, Fin 1) fs)"

text \<open>The bytes of a literal, and its value.\<close>

definition literal_bytes :: "bool \<Rightarrow> char list \<Rightarrow> char list option \<Rightarrow> char list" where
  "literal_bytes neg ds fs =
     (if neg then ''-'' else []) @ ds @ (case fs of None \<Rightarrow> [] | Some f \<Rightarrow> CHR ''.'' # f)"

definition literal_value :: "bool \<Rightarrow> char list \<Rightarrow> char list option \<Rightarrow> f32" where
  "literal_value neg ds fs =
     (let r = int_part ds;
          r' = (case fs of None \<Rightarrow> r | Some f \<Rightarrow> frac_part r f)
      in if neg then fneg r' else r')"

text \<open>The natural number a digit sequence denotes.\<close>

definition decimal_step :: "nat \<Rightarrow> char \<Rightarrow> nat" where
  "decimal_step n c = 10 * n + nat (digit_value c)"

definition decimal :: "char list \<Rightarrow> nat" where
  "decimal ds = foldl decimal_step 0 ds"

section \<open>Records, groups and tables\<close>

text \<open>
  A record is a key and a value. \<open>add_record\<close> is what \<open>process_line\<close> does to the table
  once it has split the line and parsed the value (lemma \<open>process_line_record\<close>);
  \<open>aggregate\<close> is a sequential pass over a list of records, from the empty table.
\<close>

definition add_record :: "string \<times> f32 \<Rightarrow> table \<Rightarrow> table" where
  "add_record r t = modify_at (fst r) (update_stats (snd r)) t"

definition aggregate :: "(string \<times> f32) list \<Rightarrow> table" where
  "aggregate rs = fold add_record rs []"

text \<open>The entry \<open>m[k]\<close> refers to: the stored one, or the default.\<close>

definition stats_or_default :: "table \<Rightarrow> string \<Rightarrow> locationData" where
  "stats_or_default t k = (case lookup t k of None \<Rightarrow> default_data | Some s \<Rightarrow> s)"

text \<open>The values of the records of key \<open>k\<close>, in order.\<close>

definition values_of :: "string \<Rightarrow> (string \<times> f32) list \<Rightarrow> f32 list" where
  "values_of k rs = map snd (filter (\<lambda>r. fst r = k) rs)"

text \<open>The float sum of a list, added from left to right to an initial value.\<close>

definition fsum :: "f32 \<Rightarrow> f32 list \<Rightarrow> f32" where
  "fsum a vs = fold (\<lambda>v acc. fadd acc v) vs a"

text \<open>The entries of key \<open>k\<close> in a list of tables, in order.\<close>

definition entries_of :: "string \<Rightarrow> table list \<Rightarrow> locationData list" where
  "entries_of k ls = List.map_filter (\<lambda>l. lookup l k) ls"

text \<open>
  Two entries agree on count, minimum and maximum; the floats are compared with \<open>==\<close>, which
  does not tell the two zeros apart.
\<close>

definition same_count_min_max :: "locationData \<Rightarrow> locationData \<Rightarrow> bool" where
  "same_count_min_max a b =
     (count a = count b \<and> feq (temp_min a) (temp_min b) \<and> feq (temp_max a) (temp_max b))"

text \<open>
  No addition of a float sum rounds: each addition, from the initial value on, returns the
  float whose value is the exact sum of its two operands. This excludes an overflow, an
  infinity and a NaN as well.
\<close>

fun exact_fsum :: "f32 \<Rightarrow> f32 list \<Rightarrow> bool" where
  "exact_fsum a [] = True"
| "exact_fsum a (v # vs) = (fadd a v = Fin (fval a + fval v) \<and> exact_fsum (fadd a v) vs)"

text \<open>
  No addition rounds for key \<open>k\<close>, neither in the single pass over \<open>whole\<close>, nor in the
  pass over any of the groups \<open>gs\<close>, nor when the sums of the groups are merged.
\<close>

definition no_rounding :: "string \<Rightarrow> (string \<times> f32) list list \<Rightarrow> (string \<times> f32) list \<Rightarrow> bool" where
  "no_rounding k gs whole =
     (exact_fsum (Fin 0) (values_of k whole)
      \<and> list_all (exact_fsum (Fin 0)) (map (values_of k) gs)
      \<and> exact_fsum (Fin 0)
           (map (fsum (Fin 0)) (filter (\<lambda>vs. vs \<noteq> []) (map (values_of k) gs))))"

text \<open>A table as a worker builds it: distinct keys, no NaN as minimum or maximum.\<close>

definition table_ok :: "table \<Rightarrow> bool" where
  "table_ok t = (distinct (map fst t)
     \<and> (\<forall>p \<in> set t. temp_min (snd p) \<noteq> NaN \<and> temp_max (snd p) \<noteq> NaN))"

section \<open>Notions used in the proofs\<close>

text \<open>A finite float: a rational or the negative zero.\<close>

definition is_finite :: "f32 \<Rightarrow> bool" where
  "is_finite x = (x \<noteq> NaN \<and> \<not> is_inf x)"

text \<open>
  The order of the floats that are not NaN, as an order-preserving key: the comparison
  \<open><\<close> of two such floats is the lexicographic order of their keys, and two floats are
  equal for \<open>==\<close> exactly when their keys are.
\<close>

fun fkey :: "f32 \<Rightarrow> int \<times> rat" where
  "fkey NInf = (- 1, 0)"
| "fkey (Fin q) = (0, q)"
| "fkey NegZero = (0, 0)"
| "fkey PInf = (1, 0)"
| "fkey NaN = (2, 0)"

text \<open>
  The counts are 64-bit unsigned integers and wrap. They cannot wrap in a run: the sum of
  all counts of a table is at most the number of bytes read so far, and a file has fewer
  than \<open>2 ^ 64\<close> bytes.
\<close>

definition total_count :: "table \<Rightarrow> nat" where
  "total_count t = sum_list (map (\<lambda>p. unat (count (snd p))) t)"

definition all_counted :: "table \<Rightarrow> bool" where
  "all_counted t = (\<forall>p \<in> set t. 1 \<le> unat (count (snd p)))"

text \<open>The number of bytes of the range of worker \<open>i\<close>.\<close>

definition chunk_len :: "nat \<Rightarrow> nat \<Rightarrow> nat \<Rightarrow> nat" where
  "chunk_len l n i = snd (chunk_range l n i) - fst (chunk_range l n i)"

section \<open>Inputs used in the examples\<close>

text \<open>
  The files, records and tables at which the theorems below are evaluated. \<open>NL\<close> is the
  newline byte; \<open>13421773 / 134217728\<close> is the float \<open>0.1f\<close>.
\<close>

definition c1_data :: "char list" where
  "c1_data = ''AB;12.5'' @ [NL] @ ''C;2'' @ [NL]"

definition c3_data :: "char list" where
  "c3_data = ''B;1'' @ [NL] @ ''A;2'' @ [NL] @ ''C;3'' @ [NL]"

definition c3_table :: table where
  "c3_table =
     [(''B'', \<lparr>count = 1, total = Fin 1, temp_min = Fin 1, temp_max = Fin 1\<rparr>),
      (''A'', \<lparr>count = 1, total = Fin 2, temp_min = Fin 2, temp_max = Fin 2\<rparr>),
      (''C'', \<lparr>count = 1, total = Fin 3, temp_min = Fin 3, temp_max = Fin 3\<rparr>)]"

definition c6_data :: "char list" where
  "c6_data = ''Oslo 12.5'' @ [NL] @ ''Rome;20.0'' @ [NL]"

definition c6_table :: table where
  "c6_table = [(''Rome'', \<lparr>count = 1, total = Fin 20, temp_min = Fin 20, temp_max = Fin 20\<rparr>)]"

definition c7_data :: "char list" where
  "c7_data = ''A;1'' @ [NL, NL] @ ''B;2''"

definition c2_groups :: "(string \<times> f32) list list" where
  "c2_groups = [[(''A'', Fin (13421773 / 134217728))],
                [(''A'', Fin (13421773 / 134217728)), (''A'', Fin (1 / 2))]]"

definition c2_data :: "char list" where
  "c2_data = ''A;0.1000000'' @ [NL] @ ''A;0.1'' @ [NL] @ ''A;0.5'' @ [NL]"

definition c2_exact_groups :: "(string \<times> f32) list list" where
  "c2_exact_groups = [[(''A'', Fin (25 / 2))], [(''A'', Fin (- 3)), (''A'', Fin 20)]]"

definition c2_exact_whole :: "(string \<times> f32) list" where
  "c2_exact_whole = [(''A'', Fin (- 3)), (''A'', Fin (25 / 2)), (''A'', Fin 20)]"

definition c5_data :: "char list" where
  "c5_data = ''A;0.1'' @ [NL] @ ''A;0.1'' @ [NL] @ ''A;0.5'' @ [NL]"

definition c5_t0 :: table where
  "c5_t0 = [(''A'', \<lparr>count = 1, total = Fin (13421773 / 134217728),
                     temp_min = Fin (13421773 / 134217728), temp_max = Fin (13421773 / 134217728)\<rparr>)]"

definition c5_t2 :: table where
  "c5_t2 = [(''A'', \<lparr>count = 1, total = Fin (1 / 2), temp_min = Fin (1 / 2), temp_max = Fin (1 / 2)\<rparr>)]"

section \<open>Scanning a line\<close>

text \<open>The inner loop of \<open>process_chunk\<close> never moves backwards.\<close>

lemma scan_line_ge: "scan_line data end i = Inr j \<Longrightarrow> i \<le> j"
proof (induction data "end" i rule: scan_line.induct)
  case (1 data "end" i)
  note unfold = scan_line.simps [of data "end" i]
  show ?case
  proof (cases "i < end")
    case False
    with "1.prems" unfold show ?thesis by simp
  next
    case True
    show ?thesis
    proof (cases "read_at data i")
      case (Inl e)
      with True "1.prems" unfold show ?thesis by simp
    next
      case (Inr c)
      show ?thesis
      proof (cases "c = NL")
        case True
        with \<open>i < end\<close> Inr "1.prems" unfold show ?thesis by simp
      next
        case False
        with \<open>i < end\<close> Inr "1.prems" unfold have "scan_line data end (i + 1) = Inr j" by simp
        with "1.IH" [OF \<open>i < end\<close> Inr False] show ?thesis by simp
      qed
    qed
  qed
qed

section \<open>Chunk ranges\<close>

text \<open>
  The ranges of \<open>main\<close> are contiguous and cover the file: the first starts at 0, the last
  ends at the file size, each ends where the next starts, and none exceeds the file size, so
  no offset wraps in a \<open>size_t\<close>.
\<close>

lemma chunks_cover:
  assumes "1 \<le> n"
  shows "length (chunks l n) = n"
    and "fst (chunks l n ! 0) = 0"
    and "snd (chunks l n ! (n - 1)) = l"
    and "\<forall>i. i + 1 < n \<longrightarrow> snd (chunks l n ! i) = fst (chunks l n ! (i + 1))"
    and "\<forall>i < n. fst (chunks l n ! i) \<le> snd (chunks l n ! i) \<and> snd (chunks l n ! i) \<le> l"
proof -
  show "length (chunks l n) = n" by (simp add: chunks_def)
  from assms show "fst (chunks l n ! 0) = 0" by (simp add: chunks_def chunk_range_def)
  from assms show "snd (chunks l n ! (n - 1)) = l" by (simp add: chunks_def chunk_range_def)
  show "\<forall>i. i + 1 < n \<longrightarrow> snd (chunks l n ! i) = fst (chunks l n ! (i + 1))"
    by (auto simp: chunks_def chunk_range_def Let_def)
  show "\<forall>i < n. fst (chunks l n ! i) \<le> snd (chunks l n ! i) \<and> snd (chunks l n ! i) \<le> l"
  proof (intro allI impI)
    fix i assume i: "i < n"
    have a: "i * (l div n) \<le> l"
    proof -
      have "i * (l div n) \<le> n * (l div n)" using i by (simp add: mult_le_mono1)
      also have "\<dots> \<le> l" by simp
      finally show ?thesis .
    qed
    have b: "i \<noteq> n - 1 \<Longrightarrow> (i + 1) * (l div n) \<le> l"
    proof -
      assume "i \<noteq> n - 1"
      with i have "i + 1 \<le> n" by simp
      then have "(i + 1) * (l div n) \<le> n * (l div n)" by (rule mult_le_mono1)
      also have "\<dots> \<le> l" by simp
      finally show ?thesis .
    qed
    from i a b show "fst (chunks l n ! i) \<le> snd (chunks l n ! i) \<and> snd (chunks l n ! i) \<le> l"
      by (auto simp: chunks_def chunk_range_def Let_def)
  qed
qed

text \<open>
  Claim C1. The chunk ranges are contiguous and cover the file, and every interior boundary
  lies immediately after a newline byte, so that no record is split between two workers.
  The first half is \<open>chunks_cover\<close>. The second half fails: \<open>main\<close> cuts at multiples of
  \<open>st_size / num_threads\<close> and never looks at the bytes. On the 12 bytes of the two lines
  \<open>AB;12.5\<close> and \<open>C;2\<close> with two workers the boundary is 6 and the byte before it is
  \<open>.\<close>: the first worker reads the record \<open>AB;12.5\<close> as \<open>AB;12.\<close>, the second drops the
  fragment \<open>5\<close>, and the table holds 12 for \<open>AB\<close> where a single worker finds 12.5.
\<close>

theorem chunk_boundary_splits_record:
  "chunks (length c1_data) 2 = [(0, 6), (6, 12)]
   \<and> c1_data ! (6 - 1) = CHR ''.''
   \<and> main_run c1_data 2 [0, 1] =
       Inr [(''AB'', \<lparr>count = 1, total = Fin 12, temp_min = Fin 12, temp_max = Fin 12\<rparr>),
            (''C'', \<lparr>count = 1, total = Fin 2, temp_min = Fin 2, temp_max = Fin 2\<rparr>)]
   \<and> main_run c1_data 1 [0] =
       Inr [(''AB'', \<lparr>count = 1, total = Fin (25 / 2), temp_min = Fin (25 / 2),
                      temp_max = Fin (25 / 2)\<rparr>),
            (''C'', \<lparr>count = 1, total = Fin 2, temp_min = Fin 2, temp_max = Fin 2\<rparr>)]"
  by code_simp

section \<open>The report\<close>

lemma modify_at_keys:
  "map fst (modify_at k f t) = (if k \<in> set (map fst t) then map fst t else map fst t @ [k])"
proof (induction t)
  case Nil
  show ?case by simp
next
  case (Cons p t)
  obtain k' v where p: "p = (k', v)" by (cases p)
  show ?case
  proof (cases "k' = k")
    case True
    with p show ?thesis by simp
  next
    case False
    with p Cons.IH show ?thesis by auto
  qed
qed

lemma modify_at_distinct: "distinct (map fst t) \<Longrightarrow> distinct (map fst (modify_at k f t))"
  by (simp add: modify_at_keys)

lemma merge_into_distinct:
  "distinct (map fst g) \<Longrightarrow> distinct (map fst (merge_into l g))"
  unfolding merge_into_def
  by (induction l arbitrary: g) (auto simp: modify_at_distinct)

lemma fold_merge_into_distinct:
  "distinct (map fst g) \<Longrightarrow> distinct (map fst (fold merge_into ls g))"
  by (induction ls arbitrary: g) (auto simp: merge_into_distinct)

lemma main_run_distinct:
  assumes "main_run file_data num_threads order = Inr t"
  shows "distinct (map fst t)"
proof -
  from assms obtain locals where "t = fold merge_into (map (\<lambda>w. locals ! w) order) []"
    by (auto simp: main_run_def split: if_splits sum.splits)
  then show ?thesis by (simp add: fold_merge_into_distinct)
qed

lemma report_keys: "map line_key (report t) = map fst t"
  by (induction t) (auto simp: report_def)

text \<open>
  Claim C3, as amended. The report has one line per key of the merged table, each key once,
  in the iteration order of the table; \<open>main\<close> does not sort.
\<close>

theorem report_lists_each_key_once:
  assumes "main_run file_data num_threads order = Inr t"
  shows "map line_key (report t) = map fst t \<and> distinct (map line_key (report t))"
  using main_run_distinct [OF assms] by (simp add: report_keys)

lemma c3_run: "main_run c3_data 1 [0] = Inr c3_table"
  by code_simp

text \<open>
  Claim C3 as stated, that the lines are sorted by key, fails: the file of the three lines
  \<open>B;1\<close>, \<open>A;2\<close>, \<open>C;3\<close> read by one worker is reported in the order B, A, C, the
  order of first insertion. (A hash table that iterates in the reverse of that order
  reports C, A, B, not sorted either.)
\<close>

theorem report_not_sorted:
  "main_run c3_data 1 [0] = Inr c3_table
   \<and> map line_key (report c3_table) = [''B'', ''A'', ''C'']
   \<and> \<not> sorted (map line_key (report c3_table))
   \<and> \<not> sorted (rev (map line_key (report c3_table)))"
proof -
  have "main_run c3_data 1 [0] = Inr c3_table" by code_simp
  moreover have "map line_key (report c3_table) = [''B'', ''A'', ''C'']"
    by (simp add: report_keys c3_table_def)
  moreover have "\<not> sorted [''B'', ''A'', ''C'']" "\<not> sorted (rev [''B'', ''A'', ''C''])"
    by code_simp+
  ultimately show ?thesis by simp
qed

theorem report_lists_each_key_once_witness:
  "main_run c3_data 1 [0] = Inr c3_table
   \<and> map line_key (report c3_table) = map fst c3_table
   \<and> distinct (map line_key (report c3_table))"
  using c3_run report_lists_each_key_once [OF c3_run] by blast

section \<open>Lines without a delimiter\<close>

lemma find_char_None: "find_char c xs = None \<longleftrightarrow> c \<notin> set xs"
  by (induction xs) (auto split: option.splits)

text \<open>
  Claim C6. A line of the input that contains no \<open>;\<close> leaves the table as it was: no key
  is created, no field of any entry changes, and \<open>process_line\<close> returns normally.
\<close>

theorem process_line_without_delimiter:
  assumes "sv_data line + sv_size line \<le> length data"
    and "CHR '';'' \<notin> set (sv_bytes data line)"
  shows "process_line data line loc_data = Inr loc_data"
proof -
  from assms(2) have "find_char CHR '';'' (sv_bytes data line) = None"
    by (simp add: find_char_None)
  with assms(1) show ?thesis
    by (simp add: process_line_def)
qed

theorem process_line_without_delimiter_witness:
  "sv_data \<lparr>sv_data = 0, sv_size = 9\<rparr> + sv_size \<lparr>sv_data = 0, sv_size = 9\<rparr> \<le> length c6_data
   \<and> CHR '';'' \<notin> set (sv_bytes c6_data \<lparr>sv_data = 0, sv_size = 9\<rparr>)
   \<and> process_line c6_data \<lparr>sv_data = 0, sv_size = 9\<rparr> c6_table = Inr c6_table"
proof -
  have a: "sv_data \<lparr>sv_data = 0, sv_size = 9\<rparr> + sv_size \<lparr>sv_data = 0, sv_size = 9\<rparr> \<le> length c6_data"
    by (simp add: c6_data_def)
  have b: "CHR '';'' \<notin> set (sv_bytes c6_data \<lparr>sv_data = 0, sv_size = 9\<rparr>)"
    by (simp add: c6_data_def sv_bytes_def NL_def)
  from a b process_line_without_delimiter [OF a b, of c6_table] show ?thesis by simp
qed

section \<open>The bytes \<open>parse_float\<close> reads\<close>

lemma read_at_take: "i < len \<Longrightarrow> read_at (take len str) i = read_at str i"
  by (simp add: read_at_def)

lemma read_at_ok: "i < length str \<Longrightarrow> read_at str i = Inr (str ! i)"
  by (simp add: read_at_def)

lemma int_loop_take:
  "int_loop (take len str) len result i = int_loop str len result i"
proof (induction str len result i rule: int_loop.induct)
  case (1 str len result i)
  show ?case
  proof (cases "i < len")
    case False
    then show ?thesis
      by (simp add: int_loop.simps [of _ len result i])
  next
    case True
    show ?thesis
    proof (cases "read_at str i")
      case (Inl e)
      with True show ?thesis
        by (simp add: int_loop.simps [of _ len result i] read_at_take)
    next
      case (Inr c)
      with True "1.IH" [OF True Inr] show ?thesis
        by (simp add: int_loop.simps [of _ len result i] read_at_take)
    qed
  qed
qed

lemma int_loop_ok:
  "len \<le> length str \<Longrightarrow> \<exists>r j. int_loop str len result i = Inr (r, j) \<and> i \<le> j"
proof (induction str len result i rule: int_loop.induct)
  case (1 str len result i)
  show ?case
  proof (cases "i < len")
    case False
    then show ?thesis
      by (simp add: int_loop.simps [of str len result i])
  next
    case True
    with "1.prems" have rd: "read_at str i = Inr (str ! i)" by (simp add: read_at_ok)
    show ?thesis
    proof (cases "str ! i = CHR ''.''")
      case True
      with \<open>i < len\<close> rd show ?thesis
        by (simp add: int_loop.simps [of str len result i])
    next
      case False
      from "1.IH" [OF True rd False "1.prems"]
      obtain r j where "int_loop str len (fadd (fmul result (Fin 10)) (digit_of (str ! i))) (i + 1) = Inr (r, j)"
        and "i + 1 \<le> j" by blast
      with True rd False show ?thesis
        by (simp add: int_loop.simps [of str len result i])
    qed
  qed
qed

lemma frac_loop_take:
  "frac_loop (take len str) len result fraction i = frac_loop str len result fraction i"
proof (induction str len result fraction i rule: frac_loop.induct)
  case (1 str len result fraction i)
  show ?case
  proof (cases "i < len")
    case False
    then show ?thesis
      by (simp add: frac_loop.simps [of _ len result fraction i])
  next
    case True
    show ?thesis
    proof (cases "read_at str i")
      case (Inl e)
      with True show ?thesis
        by (simp add: frac_loop.simps [of _ len result fraction i] read_at_take)
    next
      case (Inr c)
      with True "1.IH" [OF True Inr refl] show ?thesis
        by (simp add: frac_loop.simps [of _ len result fraction i] read_at_take Let_def)
    qed
  qed
qed

lemma frac_loop_ok:
  "len \<le> length str \<Longrightarrow> \<exists>r. frac_loop str len result fraction i = Inr r"
proof (induction str len result fraction i rule: frac_loop.induct)
  case (1 str len result fraction i)
  show ?case
  proof (cases "i < len")
    case False
    then show ?thesis
      by (simp add: frac_loop.simps [of str len result fraction i])
  next
    case True
    with "1.prems" have rd: "read_at str i = Inr (str ! i)" by (simp add: read_at_ok)
    from "1.IH" [OF True rd refl "1.prems"] True rd show ?thesis
      by (simp add: frac_loop.simps [of str len result fraction i] Let_def)
  qed
qed

lemma parse_float_take:
  assumes "1 \<le> len"
  shows "parse_float (take len str) len = parse_float str len"
proof -
  from assms have "read_at (take len str) 0 = read_at str 0"
    by (simp add: read_at_take)
  then show ?thesis
    unfolding parse_float_def
    by (auto simp: int_loop_take frac_loop_take read_at_take Let_def split: sum.splits prod.splits)
qed

lemma parse_float_ok:
  assumes "1 \<le> len" and "len \<le> length str"
  shows "\<exists>v. parse_float str len = Inr v"
proof -
  from assms have "0 < length str" by linarith
  then have r0: "read_at str 0 = Inr (str ! 0)" by (rule read_at_ok)
  define i0 :: nat where "i0 = (if str ! 0 = CHR ''-'' then 1 else 0)"
  from int_loop_ok [OF assms(2), of "Fin 0" i0]
  obtain r j where il: "int_loop str len (Fin 0) i0 = Inr (r, j)" by blast
  show ?thesis
  proof (cases "j < len")
    case False
    with r0 il show ?thesis
      by (simp add: parse_float_def Let_def i0_def)
  next
    case True
    with assms have rj: "read_at str j = Inr (str ! j)" by (simp add: read_at_ok)
    from frac_loop_ok [OF assms(2), of r "Fin 1" "j + 1"]
    obtain r' where "frac_loop str len r (Fin 1) (j + 1) = Inr r'" by blast
    with r0 il True rj show ?thesis
      by (simp add: parse_float_def Let_def i0_def)
  qed
qed

text \<open>
  Claim C10. For a span of length at least 1, \<open>parse_float\<close> reads only bytes of the span:
  run on a memory that holds the \<open>len\<close> bytes of the span and nothing else it returns a
  value, the same value as on the whole memory, and every read outside the memory would
  have been the error. The bound \<open>1 \<le> len\<close> is needed: the test for the minus sign reads
  index 0 before \<open>len\<close> is looked at, so on an empty memory the function fails whatever
  \<open>len\<close> is, in particular for the empty span.
\<close>

theorem parse_float_reads_inside_span:
  "(1 \<le> len \<longrightarrow> len \<le> length str \<longrightarrow>
      (\<exists>v. parse_float (take len str) len = Inr v \<and> parse_float str len = Inr v))
   \<and> parse_float (take 0 str) 0 = Inl OutOfBounds
   \<and> parse_float [] len = Inl OutOfBounds"
proof (intro conjI impI)
  assume a: "1 \<le> len" and b: "len \<le> length str"
  from parse_float_ok [OF a b] obtain v where "parse_float str len = Inr v" by blast
  with parse_float_take [OF a, of str]
  show "\<exists>v. parse_float (take len str) len = Inr v \<and> parse_float str len = Inr v" by simp
next
  show "parse_float (take 0 str) 0 = Inl OutOfBounds"
    by (simp add: parse_float_def read_at_def)
next
  show "parse_float [] len = Inl OutOfBounds"
    by (simp add: parse_float_def read_at_def)
qed

theorem parse_float_reads_inside_span_witness:
  "(1::nat) \<le> 4 \<and> (4::nat) \<le> length ''-1.5;'' \<and>
   parse_float (take 4 ''-1.5;'') 4 = Inr (Fin (- (3 / 2))) \<and>
   parse_float ''-1.5;'' 4 = Inr (Fin (- (3 / 2))) \<and>
   parse_float (take 0 ''-1.5;'') 0 = Inl OutOfBounds"
proof -
  have v: "parse_float ''-1.5;'' 4 = Inr (Fin (- (3 / 2)))" by code_simp
  from parse_float_reads_inside_span [of 4 "''-1.5;''"] v show ?thesis by simp
qed

section \<open>The lines of a chunk\<close>

lemma scan_line_eq:
  "end \<le> length data \<Longrightarrow>
   scan_line data end i = Inr (i + length (takeWhile (\<lambda>c. c \<noteq> NL) (chunk_bytes data i end)))"
proof (induction data "end" i rule: scan_line.induct)
  case (1 data "end" i)
  note unfold = scan_line.simps [of data "end" i]
  show ?case
  proof (cases "i < end")
    case False
    then show ?thesis using unfold by (simp add: chunk_bytes_def)
  next
    case True
    with "1.prems" have rd: "read_at data i = Inr (data ! i)" by (simp add: read_at_def)
    from True "1.prems" have cb: "chunk_bytes data i end = data ! i # chunk_bytes data (i + 1) end"
      unfolding chunk_bytes_def
      by (metis Cons_nth_drop_Suc Suc_diff_Suc Suc_eq_plus1 less_le_trans take_Suc_Cons)
    show ?thesis
    proof (cases "data ! i = NL")
      case True
      with \<open>i < end\<close> rd cb unfold show ?thesis by simp
    next
      case False
      from "1.IH" [OF True rd False "1.prems"] True rd False cb unfold
      show ?thesis by simp
    qed
  qed
qed

lemma chunk_bytes_empty: "end \<le> i \<Longrightarrow> chunk_bytes data i end = []"
  by (simp add: chunk_bytes_def)

lemma chunk_bytes_drop:
  "drop n (chunk_bytes data i end) = chunk_bytes data (i + n) end"
  by (simp add: chunk_bytes_def drop_take add.commute)

lemma process_chunk_from_lines:
  "end \<le> length data \<Longrightarrow>
   process_chunk_from data end i t = run_lines (process_line data) (line_views i (chunk_bytes data i end)) t"
proof (induction data "end" i t rule: process_chunk_from.induct)
  case (1 data "end" i t)
  note unfold = process_chunk_from.simps [of data "end" i t]
  show ?case
  proof (cases "i < end")
    case False
    then show ?thesis using unfold by (simp add: chunk_bytes_empty line_views.simps)
  next
    case True
    define n where "n = length (takeWhile (\<lambda>c. c \<noteq> NL) (chunk_bytes data i end))"
    have sl: "scan_line data end i = Inr (i + n)"
      using scan_line_eq [OF "1.prems"] by (simp add: n_def)
    from True "1.prems" obtain b bs where cb: "chunk_bytes data i end = b # bs"
      by (cases "chunk_bytes data i end") (auto simp: chunk_bytes_def)
    have lv: "line_views i (chunk_bytes data i end) =
        \<lparr>sv_data = i, sv_size = n\<rparr> # line_views (i + n + 1) (chunk_bytes data (i + n + 1) end)"
      using cb chunk_bytes_drop [of "n + 1" data i "end"]
      by (simp add: line_views.simps n_def Let_def add.assoc)
    show ?thesis
    proof (cases "process_line data \<lparr>sv_data = i, sv_size = n\<rparr> t")
      case (Inl e)
      with True sl lv unfold show ?thesis by simp
    next
      case (Inr t')
      from "1.IH" [OF True sl _ "1.prems", of t'] Inr
      have "process_chunk_from data end (i + n + 1) t' =
            run_lines (process_line data) (line_views (i + n + 1) (chunk_bytes data (i + n + 1) end)) t'"
        by simp
      with True sl lv Inr unfold show ?thesis by simp
    qed
  qed
qed

lemma lines_of_newline_free: "l \<in> set (lines_of bs) \<Longrightarrow> NL \<notin> set l"
proof (induction bs rule: lines_of.induct)
  case 1
  then show ?case by (simp add: lines_of.simps)
next
  case (2 b bs)
  from "2.prems" have "l = takeWhile (\<lambda>c. c \<noteq> NL) (b # bs)
     \<or> l \<in> set (lines_of (drop (length (takeWhile (\<lambda>c. c \<noteq> NL) (b # bs)) + 1) (b # bs)))"
    by (simp add: lines_of.simps(2) Let_def)
  then show ?case
  proof
    assume "l = takeWhile (\<lambda>c. c \<noteq> NL) (b # bs)"
    then show ?thesis by (metis (mono_tags, lifting) set_takeWhileD)
  next
    assume "l \<in> set (lines_of (drop (length (takeWhile (\<lambda>c. c \<noteq> NL) (b # bs)) + 1) (b # bs)))"
    with "2.IH" [OF refl] show ?thesis by simp
  qed
qed

lemma lines_of_join:
  "concat (map (\<lambda>l. l @ [NL]) (lines_of bs)) =
     (if bs = [] \<or> last bs = NL then bs else bs @ [NL])"
proof (induction bs rule: lines_of.induct)
  case 1
  show ?case by (simp add: lines_of.simps)
next
  case (2 b bs)
  define l where "l = takeWhile (\<lambda>c. c \<noteq> NL) (b # bs)"
  define r where "r = dropWhile (\<lambda>c. c \<noteq> NL) (b # bs)"
  have split: "b # bs = l @ r" by (simp add: l_def r_def)
  have lfree: "NL \<notin> set l" unfolding l_def by (metis (mono_tags, lifting) set_takeWhileD)
  have dr: "drop (length l + 1) (b # bs) = drop 1 r"
    by (simp add: split)
  have unfold: "lines_of (b # bs) = l # lines_of (drop 1 r)"
    using dr by (simp add: lines_of.simps(2) Let_def l_def)
  have ih: "concat (map (\<lambda>l. l @ [NL]) (lines_of (drop 1 r))) =
     (if drop 1 r = [] \<or> last (drop 1 r) = NL then drop 1 r else drop 1 r @ [NL])"
    using "2.IH" [OF l_def] unfolding dr .
  show ?case
  proof (cases r)
    case Nil
    with split have "b # bs = l" by simp
    with lfree have "last (b # bs) \<noteq> NL" by (metis last_in_set list.distinct(1))
    moreover from \<open>b # bs = l\<close> have "l \<noteq> []" by auto
    moreover from Nil unfold have "lines_of (b # bs) = [l]" by (simp add: lines_of.simps)
    ultimately show ?thesis using \<open>b # bs = l\<close> by simp
  next
    case (Cons c r')
    then have "c = NL" using r_def by (metis (mono_tags, lifting) hd_dropWhile list.distinct(1) list.sel(1))
    show ?thesis
    proof (cases "r' = []")
      case True
      with Cons \<open>c = NL\<close> split unfold show ?thesis by (simp add: lines_of.simps)
    next
      case False
      with Cons split have "last (b # bs) = last r'" by simp
      with False Cons \<open>c = NL\<close> split unfold ih show ?thesis by simp
    qed
  qed
qed

lemma line_views_bytes:
  "end \<le> length data \<Longrightarrow> bs = chunk_bytes data p end \<Longrightarrow>
   map (sv_bytes data) (line_views p bs) = lines_of bs"
proof (induction p bs rule: line_views.induct)
  case (1 p)
  show ?case by (simp add: line_views.simps lines_of.simps)
next
  case (2 p b bs)
  define n where "n = length (takeWhile (\<lambda>c. c \<noteq> NL) (b # bs))"
  have nle: "n \<le> length (b # bs)" unfolding n_def by (rule length_takeWhile_le)
  have "drop (n + 1) (b # bs) = chunk_bytes data (p + n + 1) end"
    using "2.prems"(2) chunk_bytes_drop [of "n + 1" data p "end"] by (simp add: add.assoc)
  with "2.IH" [OF n_def "2.prems"(1)]
  have ih: "map (sv_bytes data) (line_views (p + n + 1) (drop (n + 1) (b # bs))) =
            lines_of (drop (n + 1) (b # bs))" by simp
  have "n \<le> end - p"
    using nle "2.prems"(2) by (simp add: chunk_bytes_def)
  then have "take n (take (end - p) (drop p data)) = take n (drop p data)"
    by (simp add: min_def)
  then have "take n (drop p data) = take n (b # bs)"
    using "2.prems"(2) by (simp add: chunk_bytes_def)
  also have "\<dots> = takeWhile (\<lambda>c. c \<noteq> NL) (b # bs)"
    unfolding n_def by (metis takeWhile_eq_take)
  finally have first: "sv_bytes data \<lparr>sv_data = p, sv_size = n\<rparr> = takeWhile (\<lambda>c. c \<noteq> NL) (b # bs)"
    by (simp add: sv_bytes_def)
  show ?case
    using first ih by (simp add: line_views.simps(2) lines_of.simps(2) Let_def n_def)
qed

text \<open>
  Claim C7. On a range inside the file, \<open>process_chunk\<close> calls \<open>process_line\<close> on exactly
  the lines of the range, in order. These lines contain no newline, and written one after
  the other, each followed by a newline, they give back the bytes of the range (plus one
  newline when the range does not end in one): each line is a maximal newline-free segment,
  the newline is consumed, and a last line without a newline is still processed.
\<close>

theorem process_chunk_lines:
  assumes "end \<le> length data"
  shows "process_chunk data start end t =
           run_lines (process_line data) (line_views start (chunk_bytes data start end)) t
       \<and> map (sv_bytes data) (line_views start (chunk_bytes data start end)) =
           lines_of (chunk_bytes data start end)
       \<and> (\<forall>l \<in> set (lines_of (chunk_bytes data start end)). NL \<notin> set l)
       \<and> concat (map (\<lambda>l. l @ [NL]) (lines_of (chunk_bytes data start end))) =
           (if chunk_bytes data start end = [] \<or> last (chunk_bytes data start end) = NL
            then chunk_bytes data start end else chunk_bytes data start end @ [NL])"
  using process_chunk_from_lines [OF assms] line_views_bytes [OF assms refl]
    lines_of_newline_free lines_of_join
  by (simp add: process_chunk_def)

theorem process_chunk_lines_witness:
  "(8::nat) \<le> length c7_data
   \<and> process_chunk c7_data 0 8 [] =
       run_lines (process_line c7_data)
         [\<lparr>sv_data = 0, sv_size = 3\<rparr>, \<lparr>sv_data = 4, sv_size = 0\<rparr>, \<lparr>sv_data = 5, sv_size = 3\<rparr>] []
   \<and> map (sv_bytes c7_data)
         [\<lparr>sv_data = 0, sv_size = 3\<rparr>, \<lparr>sv_data = 4, sv_size = 0\<rparr>, \<lparr>sv_data = 5, sv_size = 3\<rparr>] =
       [''A;1'', [], ''B;2'']
   \<and> NL \<notin> set ''A;1'' \<and> NL \<notin> set ''B;2''
   \<and> concat (map (\<lambda>l. l @ [NL]) [''A;1'', [], ''B;2'']) = c7_data @ [NL]"
proof -
  have len: "(8::nat) \<le> length c7_data"
    by (simp add: c7_data_def)
  have bytes: "chunk_bytes c7_data 0 8 = c7_data"
    by (simp add: chunk_bytes_def c7_data_def)
  have views: "line_views 0 c7_data =
      [\<lparr>sv_data = 0, sv_size = 3\<rparr>, \<lparr>sv_data = 4, sv_size = 0\<rparr>, \<lparr>sv_data = 5, sv_size = 3\<rparr>]"
    by code_simp
  have lines: "lines_of c7_data = [''A;1'', [], ''B;2'']"
    by code_simp
  have last: "\<not> (c7_data = [] \<or> last c7_data = NL)"
    by (simp add: c7_data_def NL_def)
  from process_chunk_lines [OF len, of 0 "[]"] show ?thesis
    unfolding bytes views lines if_not_P [OF last] using len by simp
qed

section \<open>Rounding stays in range\<close>

lemma pow2_powi: "pow2 e = 2 powi e"
  by (simp add: pow2_def power_int_def inverse_eq_divide power_one_over)

lemma pow2_pos: "0 < pow2 e"
  by (simp add: pow2_powi)

lemma pow2_add: "pow2 (a + b) = pow2 a * pow2 b"
  by (simp add: pow2_powi power_int_add)

lemma pow2_mono: "a \<le> b \<Longrightarrow> pow2 a \<le> pow2 b"
  by (simp add: pow2_powi power_int_increasing)

lemma pow2_le_iff: "pow2 a \<le> pow2 b \<longleftrightarrow> a \<le> b"
proof
  assume le: "pow2 a \<le> pow2 b"
  show "a \<le> b"
  proof (rule ccontr)
    assume "\<not> a \<le> b"
    then have "b < a" by simp
    then have "(2::rat) powi b < 2 powi a" by (rule power_int_strict_increasing) simp
    with le show False by (simp add: pow2_powi)
  qed
next
  assume "a \<le> b"
  then show "pow2 a \<le> pow2 b" by (rule pow2_mono)
qed

lemma pow2_diff_int: "a \<le> b \<Longrightarrow> pow2 b = of_int (2 ^ nat (b - a)) * pow2 a"
proof -
  assume "a \<le> b"
  then have "pow2 b = pow2 ((b - a) + a)" by simp
  also have "\<dots> = pow2 (b - a) * pow2 a" by (rule pow2_add)
  also have "pow2 (b - a) = of_int (2 ^ nat (b - a))" using \<open>a \<le> b\<close> by (simp add: pow2_def)
  finally show ?thesis .
qed

lemma round_half_even_le: "x \<le> of_int m \<Longrightarrow> round_half_even x \<le> m"
proof -
  assume a: "x \<le> of_int m"
  show ?thesis
  proof (cases "x = of_int m")
    case True
    then show ?thesis by (simp add: round_half_even_def)
  next
    case False
    with a have "x < of_int m" by simp
    then have "\<lfloor>x\<rfloor> < m" by (simp add: floor_less_iff)
    then show ?thesis by (simp add: round_half_even_def Let_def)
  qed
qed

lemma round_half_even_ge: "of_int m \<le> x \<Longrightarrow> m \<le> round_half_even x"
proof -
  assume "of_int m \<le> x"
  then have "m \<le> \<lfloor>x\<rfloor>" by (simp add: le_floor_iff)
  then show ?thesis by (simp add: round_half_even_def Let_def)
qed

lemma round_half_even_of_int: "round_half_even (of_int m) = m"
  by (simp add: round_half_even_def)

lemma flog2_lower: assumes "0 < q" shows "pow2 (flog2 q) \<le> q"
proof -
  obtain a b where ab: "quotient_of q = (a, b)" by (cases "quotient_of q")
  then have b: "0 < b" by (rule quotient_of_denom_pos)
  from ab have q: "q = of_int a / of_int b" by (rule quotient_of_div)
  with assms b have a: "0 < a" by (simp add: zero_less_divide_iff)
  define e where "e = bitlen a - bitlen b"
  show ?thesis
  proof (cases "pow2 e \<le> q")
    case True
    with ab show ?thesis by (simp add: flog2_def e_def Let_def)
  next
    case False
    with ab have fl: "flog2 q = e - 1" by (simp add: flog2_def e_def Let_def)
    from bitlen_bounds [OF a] have "(2::int) ^ nat (bitlen a - 1) \<le> a" by simp
    then have "(of_int (2 ^ nat (bitlen a - 1)) :: rat) \<le> of_int a" by (simp only: of_int_le_iff)
    moreover from a have "1 \<le> bitlen a" by (simp add: bitlen_alt_def)
    ultimately have la: "pow2 (bitlen a - 1) \<le> of_int a" by (simp add: pow2_def)
    from bitlen_bounds [OF b] have "b \<le> 2 ^ nat (bitlen b)" by simp
    then have "(of_int b :: rat) \<le> of_int (2 ^ nat (bitlen b))" by (simp only: of_int_le_iff)
    then have lb: "of_int b \<le> pow2 (bitlen b)" by (simp add: pow2_def bitlen_nonneg)
    have "pow2 (e - 1) * of_int b \<le> pow2 (e - 1) * pow2 (bitlen b)"
      using lb pow2_pos [of "e - 1"] by (simp add: mult_left_mono)
    also have "\<dots> = pow2 (bitlen a - 1)"
      by (simp add: pow2_add [symmetric] e_def)
    also have "\<dots> \<le> of_int a" by (rule la)
    finally have "pow2 (e - 1) \<le> of_int a / of_int b"
      using b by (simp add: pos_le_divide_eq)
    with fl q show ?thesis by simp
  qed
qed

lemma ulp_exp_le: assumes "q \<noteq> 0" and "\<bar>q\<bar> \<le> pow2 k" and "- 149 \<le> k"
  shows "ulp_exp q \<le> k"
proof -
  from assms(1) have "0 < \<bar>q\<bar>" by simp
  from flog2_lower [OF this] assms(2) have "pow2 (flog2 \<bar>q\<bar>) \<le> pow2 k" by simp
  then have "flog2 \<bar>q\<bar> \<le> k" by (simp add: pow2_le_iff)
  with assms(3) show ?thesis by (simp add: ulp_exp_def)
qed

lemma rne_abs_le: assumes "\<bar>q\<bar> \<le> pow2 k" and "- 149 \<le> k"
  shows "\<bar>rne q\<bar> \<le> pow2 k"
proof (cases "q = 0")
  case True
  then show ?thesis using pow2_pos [of k] by (simp add: rne_def)
next
  case False
  define e where "e = ulp_exp q"
  define m :: int where "m = 2 ^ nat (k - e)"
  from ulp_exp_le [OF False assms] have ek: "e \<le> k" by (simp add: e_def)
  then have pk: "pow2 k = of_int m * pow2 e" unfolding m_def by (rule pow2_diff_int)
  have pe: "0 < pow2 e" by (rule pow2_pos)
  from assms(1) have "q \<le> of_int m * pow2 e" "- (of_int m * pow2 e) \<le> q"
    by (simp_all add: pk abs_le_iff)
  with pe have "q / pow2 e \<le> of_int m" "of_int (- m) \<le> q / pow2 e"
    by (simp_all add: pos_divide_le_eq pos_le_divide_eq)
  then have "round_half_even (q / pow2 e) \<le> m" "- m \<le> round_half_even (q / pow2 e)"
    by (simp_all add: round_half_even_le round_half_even_ge)
  then have "\<bar>round_half_even (q / pow2 e)\<bar> \<le> m" by simp
  then have "\<bar>of_int (round_half_even (q / pow2 e)) :: rat\<bar> \<le> of_int m"
    by (metis of_int_abs of_int_le_iff)
  then have "\<bar>of_int (round_half_even (q / pow2 e)) * pow2 e\<bar> \<le> of_int m * pow2 e"
    using pe by (simp add: abs_mult mult_right_mono)
  with False show ?thesis by (simp add: rne_def e_def [symmetric] pk)
qed

section \<open>\<open>parse_float\<close> never returns a NaN\<close>

lemma is_finite_cases: "is_finite x \<longleftrightarrow> (\<exists>q. x = Fin q) \<or> x = NegZero"
  by (cases x) (simp_all add: is_finite_def is_inf_def)

lemma f32_round_not_nan: "f32_round q \<noteq> NaN"
  by (simp add: f32_round_def Let_def)

lemma f32_round_bound:
  assumes "\<bar>q\<bar> \<le> pow2 k" and "- 149 \<le> k" and "k \<le> 127"
  shows "is_finite (f32_round q) \<and> \<bar>fval (f32_round q)\<bar> \<le> pow2 k"
proof -
  from rne_abs_le [OF assms(1,2)] have r: "\<bar>rne q\<bar> \<le> pow2 k" .
  from assms(3) have "pow2 k \<le> pow2 127" by (rule pow2_mono)
  also have "pow2 127 < 2 ^ 128" by (simp add: pow2_def)
  finally have "pow2 k < 2 ^ 128" .
  with r have "rne q < 2 ^ 128" "- (2 ^ 128) < rne q" by (simp_all add: abs_le_iff)
  with r pow2_pos [of k] show ?thesis
    by (simp add: f32_round_def Let_def is_finite_def is_inf_def less_imp_le)
qed

lemma fadd_not_nan: "x \<noteq> NaN \<Longrightarrow> is_finite y \<Longrightarrow> fadd x y \<noteq> NaN"
  by (auto simp: fadd_def is_finite_def f32_round_not_nan)

lemma fmul_not_nan: "x \<noteq> NaN \<Longrightarrow> is_finite y \<Longrightarrow> \<not> is_zero y \<Longrightarrow> fmul x y \<noteq> NaN"
  by (auto simp: fmul_def is_finite_def f32_round_not_nan is_zero_def is_inf_def)

lemma fmul_bound:
  assumes "is_finite x" and "is_finite y"
    and "\<bar>fval x\<bar> \<le> pow2 a" and "\<bar>fval y\<bar> \<le> pow2 b"
    and "- 149 \<le> a + b" and "a + b \<le> 127"
  shows "is_finite (fmul x y) \<and> \<bar>fval (fmul x y)\<bar> \<le> pow2 (a + b)"
proof (cases "fval x * fval y = 0")
  case True
  with assms(1,2) pow2_pos [of "a + b"] show ?thesis
    by (simp add: fmul_def is_finite_def is_inf_def less_imp_le)
next
  case False
  have "\<bar>fval x * fval y\<bar> \<le> pow2 a * pow2 b"
    unfolding abs_mult using assms(3,4) by (intro mult_mono) simp_all
  then have "\<bar>fval x * fval y\<bar> \<le> pow2 (a + b)" by (simp add: pow2_add)
  from f32_round_bound [OF this assms(5,6)] False assms(1,2) show ?thesis
    by (simp add: fmul_def is_finite_def)
qed

lemma char_to_int_range: "- 128 \<le> char_to_int c \<and> char_to_int c \<le> 127"
proof -
  have "(of_char c :: int) < 256"
    by (metis of_char_of of_char_mod_256 pos_mod_bound zero_less_numeral)
  moreover have "(0::int) \<le> of_char c"
    by (metis of_char_mod_256 pos_mod_sign zero_less_numeral)
  ultimately show ?thesis by (simp add: char_to_int_def Let_def)
qed

lemma digit_of_bound: "is_finite (digit_of c) \<and> \<bar>fval (digit_of c)\<bar> \<le> pow2 8"
proof -
  define n where "n = char_to_int c - char_to_int CHR ''0''"
  have z: "char_to_int CHR ''0'' = 48" by (simp add: char_to_int_def)
  from char_to_int_range [of c] have "\<bar>n\<bar> \<le> 256" unfolding n_def z by linarith
  then have "\<bar>of_int n :: rat\<bar> \<le> of_int 256" by (metis of_int_abs of_int_le_iff)
  then have "\<bar>of_int n :: rat\<bar> \<le> pow2 8" by (simp add: pow2_def)
  from f32_round_bound [OF this] show ?thesis
    using pow2_pos [of 8]
    by (simp add: digit_of_def f32_of_int_def n_def [symmetric] is_finite_def is_inf_def less_imp_le)
qed

lemma int_loop_not_nan:
  "result \<noteq> NaN \<Longrightarrow> int_loop str len result i = Inr (r, j) \<Longrightarrow> r \<noteq> NaN"
proof (induction str len result i rule: int_loop.induct)
  case (1 str len result i)
  note unfold = int_loop.simps [of str len result i]
  show ?case
  proof (cases "i < len")
    case False
    with "1.prems" unfold show ?thesis by simp
  next
    case True
    show ?thesis
    proof (cases "read_at str i")
      case (Inl e)
      with True "1.prems" unfold show ?thesis by simp
    next
      case (Inr c)
      show ?thesis
      proof (cases "c = CHR ''.''")
        case True
        with \<open>i < len\<close> Inr "1.prems" unfold show ?thesis by simp
      next
        case False
        have "is_finite (Fin 10)" "\<not> is_zero (Fin 10)"
          by (simp_all add: is_finite_def is_inf_def is_zero_def)
        with "1.prems"(1) have "fmul result (Fin 10) \<noteq> NaN" by (simp add: fmul_not_nan)
        then have nn: "fadd (fmul result (Fin 10)) (digit_of c) \<noteq> NaN"
          using digit_of_bound [of c] by (simp add: fadd_not_nan)
        from \<open>i < len\<close> Inr False "1.prems"(2) unfold
        have "int_loop str len (fadd (fmul result (Fin 10)) (digit_of c)) (i + 1) = Inr (r, j)"
          by simp
        from "1.IH" [OF \<open>i < len\<close> Inr False nn this] show ?thesis .
      qed
    qed
  qed
qed

lemma tenth_bound: "is_finite tenth \<and> \<bar>fval tenth\<bar> \<le> pow2 0"
  by (simp add: tenth_def is_finite_def is_inf_def pow2_def)

lemma frac_loop_not_nan:
  "result \<noteq> NaN \<Longrightarrow> is_finite fraction \<Longrightarrow> \<bar>fval fraction\<bar> \<le> pow2 0 \<Longrightarrow>
   frac_loop str len result fraction i = Inr r \<Longrightarrow> r \<noteq> NaN"
proof (induction str len result fraction i rule: frac_loop.induct)
  case (1 str len result fraction i)
  note unfold = frac_loop.simps [of str len result fraction i]
  show ?case
  proof (cases "i < len")
    case False
    with "1.prems" unfold show ?thesis by simp
  next
    case True
    show ?thesis
    proof (cases "read_at str i")
      case (Inl e)
      with True "1.prems" unfold show ?thesis by simp
    next
      case (Inr c)
      define fraction' where "fraction' = fmul fraction tenth"
      from fmul_bound [of fraction tenth 0 0] "1.prems"(2,3) tenth_bound
      have f': "is_finite fraction'" "\<bar>fval fraction'\<bar> \<le> pow2 0"
        by (simp_all add: fraction'_def)
      from fmul_bound [of "digit_of c" fraction' 8 0] digit_of_bound [of c] f'
      have "is_finite (fmul (digit_of c) fraction')" by simp
      with "1.prems"(1) have nn: "fadd result (fmul (digit_of c) fraction') \<noteq> NaN"
        by (simp add: fadd_not_nan)
      from True Inr "1.prems"(4) unfold
      have "frac_loop str len (fadd result (fmul (digit_of c) fraction')) fraction' (i + 1) = Inr r"
        by (simp add: Let_def fraction'_def)
      from "1.IH" [OF True Inr fraction'_def nn f' this] show ?thesis .
    qed
  qed
qed

lemma fneg_not_nan: "x \<noteq> NaN \<Longrightarrow> fneg x \<noteq> NaN"
  by (cases x) simp_all

lemma parse_float_not_nan:
  assumes "parse_float str len = Inr v"
  shows "v \<noteq> NaN"
proof -
  from assms obtain c0 where c0: "read_at str 0 = Inr c0"
    by (auto simp: parse_float_def split: sum.splits)
  define i0 :: nat where "i0 = (if c0 = CHR ''-'' then 1 else 0)"
  from assms c0 obtain r j where il: "int_loop str len (Fin 0) i0 = Inr (r, j)"
    by (auto simp: parse_float_def Let_def i0_def split: sum.splits)
  from int_loop_not_nan [OF _ il] have r: "r \<noteq> NaN" by simp
  define r' where "r' = (if c0 = CHR ''-'' then fneg v else v)"
  have one: "is_finite (Fin 1)" "\<bar>fval (Fin 1)\<bar> \<le> pow2 0"
    by (simp_all add: is_finite_def is_inf_def pow2_def)
  from assms c0 il obtain w where w: "w \<noteq> NaN" and v: "v = (if c0 = CHR ''-'' then fneg w else w)"
    using r frac_loop_not_nan [OF r one, of str len "j + 1"]
    by (auto simp: parse_float_def Let_def i0_def split: sum.splits if_splits)
  then show ?thesis by (simp add: fneg_not_nan)
qed

section \<open>Minimum and maximum\<close>

lemma flt_fkey: "x \<noteq> NaN \<Longrightarrow> y \<noteq> NaN \<Longrightarrow> flt x y \<longleftrightarrow> fkey x < fkey y"
  by (cases x; cases y) simp_all

lemma fle_fkey: "x \<noteq> NaN \<Longrightarrow> y \<noteq> NaN \<Longrightarrow> fle x y \<longleftrightarrow> fkey x \<le> fkey y"
  by (simp add: fle_def flt_fkey not_less)

lemma feq_fkey: "x \<noteq> NaN \<Longrightarrow> y \<noteq> NaN \<Longrightarrow> feq x y \<longleftrightarrow> fkey x = fkey y"
  by (auto simp: feq_def fle_fkey)

lemma update_stats_fields:
  "count (update_stats v s) = count s + 1"
  "total (update_stats v s) = fadd (total s) v"
  "temp_min (update_stats v s) = (if flt v (temp_min s) then v else temp_min s)"
  "temp_max (update_stats v s) = (if flt (temp_max s) v then v else temp_max s)"
  by (simp_all add: update_stats_def Let_def fgt_def)

lemma merge_stats_fields:
  "count (merge_stats l g) = count g + count l"
  "total (merge_stats l g) = fadd (total g) (total l)"
  "temp_min (merge_stats l g) = (if flt (temp_min l) (temp_min g) then temp_min l else temp_min g)"
  "temp_max (merge_stats l g) = (if flt (temp_max g) (temp_max l) then temp_max l else temp_max g)"
  by (simp_all add: merge_stats_def Let_def fgt_def)

lemma update_stats_min_key:
  "v \<noteq> NaN \<Longrightarrow> temp_min s \<noteq> NaN \<Longrightarrow>
   temp_min (update_stats v s) \<noteq> NaN \<and>
   fkey (temp_min (update_stats v s)) = min (fkey (temp_min s)) (fkey v)"
  by (auto simp: update_stats_fields flt_fkey min_def)

lemma update_stats_max_key:
  "v \<noteq> NaN \<Longrightarrow> temp_max s \<noteq> NaN \<Longrightarrow>
   temp_max (update_stats v s) \<noteq> NaN \<and>
   fkey (temp_max (update_stats v s)) = max (fkey (temp_max s)) (fkey v)"
  by (auto simp: update_stats_fields flt_fkey max_def)

lemma Min_insert_min:
  fixes a b :: "'a :: linorder"
  assumes "finite B"
  shows "Min (insert (min a b) B) = Min (insert a (insert b B))"
proof (cases "B = {}")
  case True
  then show ?thesis by simp
next
  case False
  with assms show ?thesis by (simp add: min.assoc)
qed

lemma Max_insert_max:
  fixes a b :: "'a :: linorder"
  assumes "finite B"
  shows "Max (insert (max a b) B) = Max (insert a (insert b B))"
proof (cases "B = {}")
  case True
  then show ?thesis by simp
next
  case False
  with assms show ?thesis by (simp add: max.assoc)
qed

lemma fold_update_min_key:
  "\<forall>v \<in> set vs. v \<noteq> NaN \<Longrightarrow> temp_min s \<noteq> NaN \<Longrightarrow>
   temp_min (fold update_stats vs s) \<noteq> NaN \<and>
   fkey (temp_min (fold update_stats vs s)) = Min (insert (fkey (temp_min s)) (fkey ` set vs))"
proof (induction vs arbitrary: s)
  case Nil
  then show ?case by simp
next
  case (Cons v vs)
  from Cons.prems have v: "v \<noteq> NaN" and vs: "\<forall>v \<in> set vs. v \<noteq> NaN" by simp_all
  from update_stats_min_key [OF v Cons.prems(2)]
  have a: "temp_min (update_stats v s) \<noteq> NaN"
    and b: "fkey (temp_min (update_stats v s)) = min (fkey (temp_min s)) (fkey v)" by simp_all
  from Cons.IH [OF vs a] b show ?case
    by (simp add: Min_insert_min)
qed

lemma fold_update_max_key:
  "\<forall>v \<in> set vs. v \<noteq> NaN \<Longrightarrow> temp_max s \<noteq> NaN \<Longrightarrow>
   temp_max (fold update_stats vs s) \<noteq> NaN \<and>
   fkey (temp_max (fold update_stats vs s)) = Max (insert (fkey (temp_max s)) (fkey ` set vs))"
proof (induction vs arbitrary: s)
  case Nil
  then show ?case by simp
next
  case (Cons v vs)
  from Cons.prems have v: "v \<noteq> NaN" and vs: "\<forall>v \<in> set vs. v \<noteq> NaN" by simp_all
  from update_stats_max_key [OF v Cons.prems(2)]
  have a: "temp_max (update_stats v s) \<noteq> NaN"
    and b: "fkey (temp_max (update_stats v s)) = max (fkey (temp_max s)) (fkey v)" by simp_all
  from Cons.IH [OF vs a] b show ?case
    by (simp add: Max_insert_max)
qed

lemma parsed_values_not_nan:
  assumes "list_all2 (\<lambda>sp v. parse_float (fst sp) (snd sp) = Inr v) spans vs"
  shows "\<forall>v \<in> set vs. v \<noteq> NaN"
proof
  fix v assume "v \<in> set vs"
  then obtain n where n: "n < length vs" "vs ! n = v" by (auto simp: in_set_conv_nth)
  with assms have "parse_float (fst (spans ! n)) (snd (spans ! n)) = Inr v"
    by (auto simp: list_all2_conv_all_nth)
  then show "v \<noteq> NaN" by (rule parse_float_not_nan)
qed

text \<open>
  Claim C8. Start from the initial record (count 0, sum 0, minimum 99, maximum -99) and
  apply the per-record update of \<open>process_line\<close> to any sequence of values that
  \<open>parse_float\<close> returned, as \<open>process_line\<close> does. Then every value of the sequence lies
  between the minimum and the maximum of the record. (The values are those the program
  can observe: \<open>parse_float\<close> never returns a NaN, on any bytes.)
\<close>

theorem observed_values_between_min_and_max:
  assumes "list_all2 (\<lambda>sp v. parse_float (fst sp) (snd sp) = Inr v) spans vs"
    and "s = fold update_stats vs default_data"
  shows "\<forall>v \<in> set vs. fle (temp_min s) v \<and> fle v (temp_max s)"
proof
  fix v assume v: "v \<in> set vs"
  from parsed_values_not_nan [OF assms(1)] have nn: "\<forall>v \<in> set vs. v \<noteq> NaN" .
  have d: "temp_min default_data \<noteq> NaN" "temp_max default_data \<noteq> NaN"
    by (simp_all add: default_data_def)
  from fold_update_min_key [OF nn d(1)] assms(2)
  have mn: "temp_min s \<noteq> NaN"
    and mk: "fkey (temp_min s) = Min (insert (fkey (temp_min default_data)) (fkey ` set vs))"
    by simp_all
  from fold_update_max_key [OF nn d(2)] assms(2)
  have mx: "temp_max s \<noteq> NaN"
    and xk: "fkey (temp_max s) = Max (insert (fkey (temp_max default_data)) (fkey ` set vs))"
    by simp_all
  from v have "fkey (temp_min s) \<le> fkey v" unfolding mk by (intro Min_le) simp_all
  moreover from v have "fkey v \<le> fkey (temp_max s)" unfolding xk by (intro Max_ge) simp_all
  ultimately show "fle (temp_min s) v \<and> fle v (temp_max s)"
    using nn v mn mx by (simp add: fle_fkey)
qed

theorem observed_values_between_min_and_max_witness:
  "list_all2 (\<lambda>sp v. parse_float (fst sp) (snd sp) = Inr v)
     [(''12.5'', 4), (''-3'', 2)] [Fin (25 / 2), Fin (- 3)]
   \<and> \<lparr>count = 2, total = Fin (19 / 2), temp_min = Fin (- 3), temp_max = Fin (25 / 2)\<rparr> =
       fold update_stats [Fin (25 / 2), Fin (- 3)] default_data
   \<and> fle (Fin (- 3)) (Fin (25 / 2)) \<and> fle (Fin (25 / 2)) (Fin (25 / 2))
   \<and> fle (Fin (- 3)) (Fin (- 3)) \<and> fle (Fin (- 3)) (Fin (25 / 2))"
proof -
  have a: "list_all2 (\<lambda>sp v. parse_float (fst sp) (snd sp) = Inr v)
     [(''12.5'', 4), (''-3'', 2)] [Fin (25 / 2), Fin (- 3)]"
    by code_simp
  have b: "\<lparr>count = 2, total = Fin (19 / 2), temp_min = Fin (- 3), temp_max = Fin (25 / 2)\<rparr> =
       fold update_stats [Fin (25 / 2), Fin (- 3)] default_data"
    by code_simp
  from observed_values_between_min_and_max [OF a b]
  have c: "fle (Fin (- 3)) (Fin (25 / 2)) \<and> fle (Fin (25 / 2)) (Fin (25 / 2))
   \<and> fle (Fin (- 3)) (Fin (- 3)) \<and> fle (Fin (- 3)) (Fin (25 / 2))"
    by simp
  from a b c show ?thesis by blast
qed

section \<open>Counts\<close>

lemma total_count_simps [simp]:
  "total_count [] = 0"
  "total_count ((k, v) # t) = unat (count v) + total_count t"
  by (simp_all add: total_count_def)

lemma all_counted_simps [simp]:
  "all_counted []"
  "all_counted ((k, v) # t) \<longleftrightarrow> 1 \<le> unat (count v) \<and> all_counted t"
  by (simp_all add: all_counted_def)

lemma modify_at_total:
  assumes "\<And>s. unat (count (f s)) \<le> unat (count s) + d"
  shows "total_count (modify_at k f t) \<le> total_count t + d"
proof (induction t)
  case Nil
  from assms [of default_data] show ?case by (simp add: default_data_def)
next
  case (Cons p t)
  obtain k' v where p: "p = (k', v)" by (cases p)
  show ?case
  proof (cases "k' = k")
    case True
    with p assms [of v] show ?thesis by simp
  next
    case False
    with p Cons.IH show ?thesis by simp
  qed
qed

lemma modify_at_counted:
  assumes "all_counted t" and "total_count t \<le> m"
    and "1 \<le> unat (count (f default_data))"
    and "\<And>s. 1 \<le> unat (count s) \<Longrightarrow> unat (count s) \<le> m \<Longrightarrow> 1 \<le> unat (count (f s))"
  shows "all_counted (modify_at k f t)"
  using assms(1,2)
proof (induction t)
  case Nil
  from assms(3) show ?case by simp
next
  case (Cons p t)
  obtain k' v where p: "p = (k', v)" by (cases p)
  show ?case
  proof (cases "k' = k")
    case True
    from Cons.prems p have "1 \<le> unat (count v)" "unat (count v) \<le> m" by simp_all
    then have "1 \<le> unat (count (f v))" by (rule assms(4))
    with True p Cons.prems show ?thesis by simp
  next
    case False
    from Cons.prems p have "all_counted t" "total_count t \<le> m" by simp_all
    then have "all_counted (modify_at k f t)" by (rule Cons.IH)
    with False p Cons.prems show ?thesis by simp
  qed
qed

lemma unat_add_le: "unat (a + b) \<le> unat a + unat (b :: 64 word)"
  by (simp add: unat_word_ariths)

lemma unat_add_pos:
  "1 \<le> unat (b :: 64 word) \<Longrightarrow> unat a + unat b < 2 ^ 64 \<Longrightarrow> 1 \<le> unat (a + b)"
  by (simp add: unat_word_ariths)

lemma update_stats_count: "count (update_stats v s) = count s + 1"
  by (simp add: update_stats_def Let_def)

lemma merge_stats_count: "count (merge_stats l g) = count g + count l"
  by (simp add: merge_stats_def Let_def)

lemma process_line_total:
  assumes "process_line data line t = Inr t'"
  shows "total_count t' \<le> total_count t + 1"
proof (cases "t' = t")
  case True
  then show ?thesis by simp
next
  case False
  with assms obtain k v where "t' = modify_at k (update_stats v) t"
    by (auto simp: process_line_def Let_def split: if_splits option.splits sum.splits)
  moreover have "\<And>s. unat (count (update_stats v s)) \<le> unat (count s) + 1"
    using unat_add_le [of _ 1] by (simp add: update_stats_count)
  then have "total_count (modify_at k (update_stats v) t) \<le> total_count t + 1"
    by (rule modify_at_total)
  ultimately show ?thesis by simp
qed

lemma process_line_counted:
  assumes "process_line data line t = Inr t'" and "all_counted t" and "total_count t + 1 < 2 ^ 64"
  shows "all_counted t'"
proof (cases "t' = t")
  case True
  with assms(2) show ?thesis by simp
next
  case False
  with assms(1) obtain k v where t': "t' = modify_at k (update_stats v) t"
    by (auto simp: process_line_def Let_def split: if_splits option.splits sum.splits)
  have a: "1 \<le> unat (count (update_stats v default_data))"
    by (simp add: update_stats_count default_data_def)
  have b: "\<And>s. 1 \<le> unat (count s) \<Longrightarrow> unat (count s) \<le> total_count t
              \<Longrightarrow> 1 \<le> unat (count (update_stats v s))"
  proof -
    fix s :: locationData
    assume "unat (count s) \<le> total_count t"
    with assms(3) have "unat (count s) + unat (1 :: 64 word) < 2 ^ 64" by simp
    then show "1 \<le> unat (count (update_stats v s))"
      unfolding update_stats_count by (intro unat_add_pos) simp_all
  qed
  from modify_at_counted [of t "total_count t" "update_stats v" k, OF assms(2) order_refl a b] t'
  show ?thesis by simp
qed

lemma process_chunk_from_counts:
  assumes "process_chunk_from data end i t = Inr t'"
  shows "total_count t' \<le> total_count t + (end - i)
       \<and> (all_counted t \<longrightarrow> total_count t + (end - i) < 2 ^ 64 \<longrightarrow> all_counted t')"
  using assms
proof (induction data "end" i t rule: process_chunk_from.induct)
  case (1 data "end" i t)
  note unfold = process_chunk_from.simps [of data "end" i t]
  show ?case
  proof (cases "i < end")
    case False
    with "1.prems" unfold show ?thesis by simp
  next
    case True
    from True "1.prems" unfold obtain j where sl: "scan_line data end i = Inr j"
      by (auto split: sum.splits)
    with True "1.prems" unfold obtain t1
      where pl: "process_line data \<lparr>sv_data = i, sv_size = j - i\<rparr> t = Inr t1"
      by (auto split: sum.splits)
    with True sl "1.prems" unfold have rest: "process_chunk_from data end (j + 1) t1 = Inr t'"
      by simp
    from scan_line_ge [OF sl] have ij: "i \<le> j" .
    from "1.IH" [OF True sl pl rest]
    have ih1: "total_count t' \<le> total_count t1 + (end - (j + 1))"
      and ih2: "all_counted t1 \<Longrightarrow> total_count t1 + (end - (j + 1)) < 2 ^ 64 \<Longrightarrow> all_counted t'"
      by simp_all
    from process_line_total [OF pl] have t1: "total_count t1 \<le> total_count t + 1" .
    from True ij have step: "1 + (end - (j + 1)) \<le> end - i" by simp
    have a: "total_count t' \<le> total_count t + (end - i)"
      using ih1 t1 step by linarith
    have b: "all_counted t'" if c: "all_counted t" and d: "total_count t + (end - i) < 2 ^ 64"
    proof -
      from d True have "total_count t + 1 < 2 ^ 64" by simp
      from process_line_counted [OF pl c this] have "all_counted t1" .
      moreover from t1 step d have "total_count t1 + (end - (j + 1)) < 2 ^ 64" by linarith
      ultimately show ?thesis by (rule ih2)
    qed
    from a b show ?thesis by blast
  qed
qed

lemma merge_into_counts:
  "total_count (merge_into l g) \<le> total_count g + total_count l
   \<and> (all_counted g \<longrightarrow> all_counted l \<longrightarrow> total_count g + total_count l < 2 ^ 64
        \<longrightarrow> all_counted (merge_into l g))"
proof (induction l arbitrary: g)
  case Nil
  show ?case by (simp add: merge_into_def)
next
  case (Cons p l)
  obtain k v where p: "p = (k, v)" by (cases p)
  define g1 where "g1 = modify_at k (merge_stats v) g"
  have unfold: "merge_into (p # l) g = merge_into l g1"
    by (simp add: merge_into_def p g1_def)
  have "\<And>s. unat (count (merge_stats v s)) \<le> unat (count s) + unat (count v)"
    by (simp add: merge_stats_count unat_add_le)
  then have g1: "total_count g1 \<le> total_count g + unat (count v)"
    unfolding g1_def by (rule modify_at_total)
  from Cons.IH [of g1]
  have ih1: "total_count (merge_into l g1) \<le> total_count g1 + total_count l"
    and ih2: "all_counted g1 \<Longrightarrow> all_counted l \<Longrightarrow> total_count g1 + total_count l < 2 ^ 64
              \<Longrightarrow> all_counted (merge_into l g1)"
    by simp_all
  have a: "total_count (merge_into (p # l) g) \<le> total_count g + total_count (p # l)"
    unfolding unfold using ih1 g1 by (simp add: p)
  have b: "all_counted (merge_into (p # l) g)"
    if c: "all_counted g" and d: "all_counted (p # l)"
      and e: "total_count g + total_count (p # l) < 2 ^ 64"
  proof -
    from d p have v: "1 \<le> unat (count v)" and l: "all_counted l" by simp_all
    from v have x: "1 \<le> unat (count (merge_stats v default_data))"
      by (simp add: merge_stats_count default_data_def)
    have y: "\<And>s. 1 \<le> unat (count s) \<Longrightarrow> unat (count s) \<le> total_count g
              \<Longrightarrow> 1 \<le> unat (count (merge_stats v s))"
    proof -
      fix s :: locationData
      assume "unat (count s) \<le> total_count g"
      with e p have "unat (count s) + unat (count v) < 2 ^ 64" by simp
      with v show "1 \<le> unat (count (merge_stats v s))"
        unfolding merge_stats_count by (intro unat_add_pos)
    qed
    from modify_at_counted [of g "total_count g" "merge_stats v" k, OF c order_refl x y]
    have "all_counted g1" by (simp add: g1_def)
    moreover from g1 e p have "total_count g1 + total_count l < 2 ^ 64" by simp
    ultimately show ?thesis unfolding unfold using l ih2 by simp
  qed
  from a b show ?case by blast
qed

lemma fold_merge_into_counts:
  "total_count (fold merge_into ls g) \<le> total_count g + sum_list (map total_count ls)
   \<and> (all_counted g \<longrightarrow> (\<forall>l \<in> set ls. all_counted l)
        \<longrightarrow> total_count g + sum_list (map total_count ls) < 2 ^ 64
        \<longrightarrow> all_counted (fold merge_into ls g))"
proof (induction ls arbitrary: g)
  case Nil
  show ?case by simp
next
  case (Cons l ls)
  from merge_into_counts [of l g]
  have m1: "total_count (merge_into l g) \<le> total_count g + total_count l"
    and m2: "all_counted g \<Longrightarrow> all_counted l \<Longrightarrow> total_count g + total_count l < 2 ^ 64
              \<Longrightarrow> all_counted (merge_into l g)"
    by simp_all
  from Cons.IH [of "merge_into l g"]
  have ih1: "total_count (fold merge_into ls (merge_into l g))
              \<le> total_count (merge_into l g) + sum_list (map total_count ls)"
    and ih2: "all_counted (merge_into l g) \<Longrightarrow> (\<forall>l \<in> set ls. all_counted l)
              \<Longrightarrow> total_count (merge_into l g) + sum_list (map total_count ls) < 2 ^ 64
              \<Longrightarrow> all_counted (fold merge_into ls (merge_into l g))"
    by simp_all
  have a: "total_count (fold merge_into (l # ls) g)
            \<le> total_count g + sum_list (map total_count (l # ls))"
    using ih1 m1 by simp
  have b: "all_counted (fold merge_into (l # ls) g)"
    if c: "all_counted g" and d: "\<forall>x \<in> set (l # ls). all_counted x"
      and e: "total_count g + sum_list (map total_count (l # ls)) < 2 ^ 64"
  proof -
    from e have "total_count g + total_count l < 2 ^ 64" by simp
    with c d have "all_counted (merge_into l g)" by (simp add: m2)
    moreover from d have "\<forall>x \<in> set ls. all_counted x" by simp
    moreover from m1 e have "total_count (merge_into l g) + sum_list (map total_count ls) < 2 ^ 64"
      by simp
    ultimately show ?thesis using ih2 by simp
  qed
  from a b show ?case by blast
qed

lemma collect_nth:
  "collect rs = Inr xs \<Longrightarrow> length xs = length rs \<and> (\<forall>i < length rs. rs ! i = Inr (xs ! i))"
proof (induction rs arbitrary: xs)
  case Nil
  then show ?case by simp
next
  case (Cons r rs)
  from Cons.prems obtain x ys where r: "r = Inr x" and ys: "collect rs = Inr ys" and xs: "xs = x # ys"
    by (cases r) (auto split: sum.splits)
  from Cons.IH [OF ys] r xs show ?case
    by (auto simp: nth_Cons split: nat.splits)
qed

lemma sum_list_const: "sum_list (map (\<lambda>i. c) xs) = length xs * (c::nat)"
  by (induction xs) simp_all

lemma chunk_len_sum:
  assumes "1 \<le> n"
  shows "sum_list (map (chunk_len l n) [0..<n]) = l"
proof -
  define c where "c = l div n"
  from assms obtain m where n: "n = Suc m" by (cases n) auto
  have inner: "map (chunk_len l n) [0..<m] = map (\<lambda>i. c) [0..<m]"
    by (rule map_cong) (auto simp: chunk_len_def chunk_range_def Let_def n c_def)
  have "m * c \<le> n * c" by (simp add: n)
  also have "\<dots> \<le> l" by (simp add: c_def)
  finally have le: "m * c \<le> l" .
  have last: "chunk_len l n m = l - m * c"
    by (simp add: chunk_len_def chunk_range_def Let_def n c_def)
  have "sum_list (map (chunk_len l n) [0..<n]) = sum_list (map (chunk_len l n) [0..<m]) + chunk_len l n m"
    by (simp add: n)
  also have "\<dots> = m * c + (l - m * c)"
    by (simp add: inner last sum_list_const)
  also have "\<dots> = l" using le by simp
  finally show ?thesis .
qed

lemma worker_counts:
  assumes "worker data r = Inr t"
  shows "total_count t \<le> snd r - fst r \<and> (snd r - fst r < 2 ^ 64 \<longrightarrow> all_counted t)"
  using process_chunk_from_counts [of data "snd r" "fst r" "[]" t] assms
  by (simp add: worker_def process_chunk_def)

lemma rne_ge:
  assumes "pow2 k \<le> q" and "- 149 \<le> k"
  shows "pow2 k \<le> rne q"
proof -
  from assms(1) pow2_pos [of k] have q: "0 < q" by simp
  define e where "e = ulp_exp q"
  have pe: "0 < pow2 e" by (rule pow2_pos)
  have rne: "rne q = of_int (round_half_even (q / pow2 e)) * pow2 e"
    using q by (simp add: rne_def e_def)
  have key: "pow2 j \<le> rne q" if ej: "e \<le> j" and jq: "pow2 j \<le> q" for j
  proof -
    define m :: int where "m = 2 ^ nat (j - e)"
    from ej have pj: "pow2 j = of_int m * pow2 e" unfolding m_def by (rule pow2_diff_int)
    from jq pe have "of_int m \<le> q / pow2 e" by (simp add: pj pos_le_divide_eq)
    then have "m \<le> round_half_even (q / pow2 e)" by (rule round_half_even_ge)
    then have "(of_int m :: rat) \<le> of_int (round_half_even (q / pow2 e))" by (simp only: of_int_le_iff)
    with pe show ?thesis unfolding rne pj by (simp add: mult_right_mono)
  qed
  show ?thesis
  proof (cases "e \<le> k")
    case True
    from key [OF True assms(1)] show ?thesis .
  next
    case False
    with assms(2) have "e = flog2 \<bar>q\<bar> - 23" by (simp add: e_def ulp_exp_def max_def split: if_splits)
    with q have ef: "e = flog2 q - 23" by simp
    from flog2_lower [OF q] have "pow2 (flog2 q) \<le> q" .
    from key [OF _ this] ef have "pow2 (flog2 q) \<le> rne q" by simp
    moreover from False ef have "pow2 k \<le> pow2 (flog2 q)" by (intro pow2_mono) simp
    ultimately show ?thesis by simp
  qed
qed

lemma f32_round_not_zero:
  assumes "1 \<le> rne q"
  shows "\<not> is_zero (f32_round q)"
proof -
  define r where "r = rne q"
  from assms have r: "1 \<le> r" by (simp add: r_def)
  then have "r \<noteq> 0" "\<not> r \<le> - (2 ^ 128)" by simp_all
  then have "f32_round q = (if 2 ^ 128 \<le> r then PInf else Fin r)"
    by (simp add: f32_round_def Let_def r_def [symmetric])
  with \<open>r \<noteq> 0\<close> show ?thesis by (simp add: is_zero_def)
qed

lemma f32_of_u64_not_zero:
  assumes "1 \<le> unat w"
  shows "\<not> is_zero (f32_of_u64 w)"
proof -
  have "uint w = int (unat w)" by simp
  with assms have n: "1 \<le> uint w" by linarith
  have "pow2 0 = 1" by (simp add: pow2_def)
  moreover from n have "(of_int 1 :: rat) \<le> of_int (uint w)" by (simp only: of_int_le_iff)
  ultimately have "pow2 0 \<le> (of_int (uint w) :: rat)" by simp
  from rne_ge [OF this] \<open>pow2 0 = 1\<close> have "1 \<le> rne (of_int (uint w))" by simp
  then have "\<not> is_zero (f32_round (of_int (uint w)))" by (rule f32_round_not_zero)
  moreover from n have "uint w \<noteq> 0" by linarith
  ultimately show ?thesis by (simp add: f32_of_u64_def f32_of_int_def)
qed

text \<open>
  Claim C9. In every run on a file of fewer than \<open>2 ^ 64\<close> bytes, every entry of the final
  table has a count of at least 1, and the divisor of the average, the count converted to
  \<open>float\<close>, is not zero.
\<close>

theorem final_counts_positive:
  assumes "main_run file_data num_threads order = Inr t"
    and "length file_data < 2 ^ 64"
  shows "\<forall>p \<in> set t. 1 \<le> unat (count (snd p)) \<and> \<not> is_zero (f32_of_u64 (count (snd p)))"
proof -
  define l where "l = length file_data"
  from assms(1) have n: "1 \<le> num_threads"
    by (auto simp: main_run_def split: if_splits)
  from assms(1) obtain locals
    where col: "collect (map (worker file_data) (chunks l num_threads)) = Inr locals"
      and t: "t = fold merge_into (map (\<lambda>w. locals ! w) order) []"
    by (auto simp: main_run_def l_def split: if_splits sum.splits)
  from assms(1) have "sort order = [0..<num_threads]"
    by (auto simp: main_run_def split: if_splits)
  then have perm: "mset order = mset [0..<num_threads]"
    by (metis mset_sort)
  then have so: "set order = {0..<num_threads}"
    by (metis set_mset_mset set_upt)
  have each: "total_count (locals ! w) \<le> chunk_len l num_threads w \<and> all_counted (locals ! w)"
    if "w \<in> set order" for w
  proof -
    from that so have w: "w < num_threads" by simp
    with collect_nth [OF col]
    have "worker file_data (chunks l num_threads ! w) = Inr (locals ! w)"
      by (simp add: chunks_def)
    from worker_counts [OF this] w
    have a: "total_count (locals ! w) \<le> chunk_len l num_threads w"
      and b: "chunk_len l num_threads w < 2 ^ 64 \<Longrightarrow> all_counted (locals ! w)"
      by (simp_all add: chunk_len_def chunks_def)
    from chunks_cover(5) [OF n, of l, rule_format, OF w] w
    have "snd (chunk_range l num_threads w) \<le> l"
      by (simp add: chunks_def)
    then have "chunk_len l num_threads w \<le> l"
      unfolding chunk_len_def by linarith
    with assms(2) have "chunk_len l num_threads w < 2 ^ 64" by (simp add: l_def)
    with a b show ?thesis by simp
  qed
  have "sum_list (map total_count (map (\<lambda>w. locals ! w) order))
          \<le> sum_list (map (chunk_len l num_threads) order)"
    unfolding map_map comp_def by (rule sum_list_mono) (simp add: each)
  also have "\<dots> = sum_mset (image_mset (chunk_len l num_threads) (mset order))"
    by (simp add: sum_mset_sum_list [symmetric])
  also have "\<dots> = sum_list (map (chunk_len l num_threads) [0..<num_threads])"
    unfolding perm by (simp add: sum_mset_sum_list [symmetric])
  also have "\<dots> = l" using n by (rule chunk_len_sum)
  finally have total: "sum_list (map total_count (map (\<lambda>w. locals ! w) order)) \<le> l" .
  from fold_merge_into_counts [of "map (\<lambda>w. locals ! w) order" "[]"] each total assms(2)
  have "all_counted t" by (simp add: t l_def)
  then show ?thesis by (simp add: all_counted_def f32_of_u64_not_zero)
qed

theorem final_counts_positive_witness:
  "main_run c1_data 2 [1, 0] =
       Inr [(''C'', \<lparr>count = 1, total = Fin 2, temp_min = Fin 2, temp_max = Fin 2\<rparr>),
            (''AB'', \<lparr>count = 1, total = Fin 12, temp_min = Fin 12, temp_max = Fin 12\<rparr>)]
   \<and> length c1_data < 2 ^ 64
   \<and> 1 \<le> unat (1 :: 64 word) \<and> \<not> is_zero (f32_of_u64 1)"
proof -
  have a: "main_run c1_data 2 [1, 0] =
       Inr [(''C'', \<lparr>count = 1, total = Fin 2, temp_min = Fin 2, temp_max = Fin 2\<rparr>),
            (''AB'', \<lparr>count = 1, total = Fin 12, temp_min = Fin 12, temp_max = Fin 12\<rparr>)]"
    by code_simp
  have c: "length c1_data < 2 ^ 64"
    by (simp add: c1_data_def)
  from final_counts_positive [OF a c]
  have d: "1 \<le> unat (1 :: 64 word) \<and> \<not> is_zero (f32_of_u64 1)" by simp
  from a c d show ?thesis by blast
qed

section \<open>Records, groups and merging\<close>

lemma lookup_modify_at:
  "lookup (modify_at k f t) k' =
     (if k' = k then Some (f (stats_or_default t k)) else lookup t k')"
proof (induction t)
  case Nil
  show ?case by (simp add: stats_or_default_def)
next
  case (Cons p t)
  obtain a v where p: "p = (a, v)" by (cases p)
  show ?case
  proof (cases "a = k")
    case True
    with p show ?thesis by (simp add: stats_or_default_def)
  next
    case False
    with p Cons.IH show ?thesis by (cases "k' = k") (simp_all add: stats_or_default_def)
  qed
qed

lemma lookup_None_iff: "lookup t k = None \<longleftrightarrow> k \<notin> fst ` set t"
proof (induction t)
  case Nil
  show ?case by simp
next
  case (Cons p t)
  obtain a v where p: "p = (a, v)" by (cases p)
  with Cons.IH show ?case by (cases "a = k") simp_all
qed

lemma lookup_Some_mem: "lookup t k = Some v \<Longrightarrow> (k, v) \<in> set t"
  by (induction t) (auto split: if_splits)

lemma lookup_distinct: "distinct (map fst t) \<Longrightarrow> (k, v) \<in> set t \<Longrightarrow> lookup t k = Some v"
  by (induction t) (auto simp: image_iff)

lemma stats_or_default_modify_at:
  "stats_or_default (modify_at k f t) k' =
     (if k' = k then f (stats_or_default t k) else stats_or_default t k')"
  by (simp add: stats_or_default_def lookup_modify_at)

lemma lookup_add_records:
  "lookup (fold add_record rs t) k =
     (if values_of k rs = [] then lookup t k
      else Some (fold update_stats (values_of k rs) (stats_or_default t k)))"
proof (induction rs arbitrary: t)
  case Nil
  show ?case by (simp add: values_of_def)
next
  case (Cons r rs)
  show ?case
  proof (cases "fst r = k")
    case True
    then have v: "values_of k (r # rs) = snd r # values_of k rs" by (simp add: values_of_def)
    from True have s: "stats_or_default (add_record r t) k = update_stats (snd r) (stats_or_default t k)"
      by (simp add: add_record_def stats_or_default_modify_at)
    from True have l: "lookup (add_record r t) k = Some (update_stats (snd r) (stats_or_default t k))"
      by (simp add: add_record_def lookup_modify_at)
    show ?thesis using Cons.IH [of "add_record r t"] by (simp add: v s l)
  next
    case False
    then have v: "values_of k (r # rs) = values_of k rs" by (simp add: values_of_def)
    from False have s: "stats_or_default (add_record r t) k = stats_or_default t k"
      by (simp add: add_record_def stats_or_default_modify_at)
    from False have l: "lookup (add_record r t) k = lookup t k"
      by (simp add: add_record_def lookup_modify_at)
    show ?thesis using Cons.IH [of "add_record r t"] by (simp add: v s l)
  qed
qed

lemma lookup_aggregate:
  "lookup (aggregate rs) k =
     (if values_of k rs = [] then None
      else Some (fold update_stats (values_of k rs) default_data))"
  by (simp add: aggregate_def lookup_add_records stats_or_default_def)

lemma add_record_distinct: "distinct (map fst t) \<Longrightarrow> distinct (map fst (add_record r t))"
  by (simp add: add_record_def modify_at_distinct)

lemma aggregate_distinct: "distinct (map fst (aggregate rs))"
proof -
  have "distinct (map fst t) \<Longrightarrow> distinct (map fst (fold add_record rs t))" for t
    by (induction rs arbitrary: t) (simp_all add: add_record_distinct)
  then show ?thesis by (simp add: aggregate_def)
qed

lemma lookup_merge_fold:
  "distinct (map fst l) \<Longrightarrow>
   lookup (fold (\<lambda>(key, val) g. modify_at key (merge_stats val) g) l g) k =
     (case lookup l k of None \<Rightarrow> lookup g k
      | Some v \<Rightarrow> Some (merge_stats v (stats_or_default g k)))"
proof (induction l arbitrary: g)
  case Nil
  show ?case by simp
next
  case (Cons p l)
  obtain k' v where p: "p = (k', v)" by (cases p)
  from Cons.prems p have d: "distinct (map fst l)" and nk: "k' \<notin> fst ` set l" by simp_all
  note ih = Cons.IH [OF d, of "modify_at k' (merge_stats v) g"]
  show ?case
  proof (cases "k' = k")
    case True
    with nk have "lookup l k = None" by (simp add: lookup_None_iff)
    with ih True p show ?thesis
      by (simp add: lookup_modify_at)
  next
    case False
    then have "lookup (modify_at k' (merge_stats v) g) k = lookup g k"
      "stats_or_default (modify_at k' (merge_stats v) g) k = stats_or_default g k"
      by (simp_all add: lookup_modify_at stats_or_default_modify_at)
    with ih False p show ?thesis
      by (simp split: option.split)
  qed
qed

lemma lookup_merge_into:
  "distinct (map fst l) \<Longrightarrow>
   lookup (merge_into l g) k =
     (case lookup l k of None \<Rightarrow> lookup g k
      | Some v \<Rightarrow> Some (merge_stats v (stats_or_default g k)))"
  unfolding merge_into_def by (rule lookup_merge_fold)

lemma entries_of_simps:
  "entries_of k [] = []"
  "entries_of k (l # ls) = (case lookup l k of None \<Rightarrow> entries_of k ls | Some v \<Rightarrow> v # entries_of k ls)"
  by (simp_all add: entries_of_def List.map_filter_simps split: option.split)

lemma lookup_fold_merge_into:
  "\<forall>l \<in> set ls. distinct (map fst l) \<Longrightarrow>
   lookup (fold merge_into ls g) k =
     (if entries_of k ls = [] then lookup g k
      else Some (fold merge_stats (entries_of k ls) (stats_or_default g k)))"
proof (induction ls arbitrary: g)
  case Nil
  show ?case by (simp add: entries_of_simps)
next
  case (Cons l ls)
  from Cons.prems have d: "distinct (map fst l)" and ds: "\<forall>l \<in> set ls. distinct (map fst l)"
    by simp_all
  note ih = Cons.IH [OF ds, of "merge_into l g"]
  show ?case
  proof (cases "lookup l k")
    case None
    then have "lookup (merge_into l g) k = lookup g k"
      "stats_or_default (merge_into l g) k = stats_or_default g k"
      by (simp_all add: stats_or_default_def lookup_merge_into [OF d])
    with ih None show ?thesis by (simp add: entries_of_simps)
  next
    case (Some v)
    then have "lookup (merge_into l g) k = Some (merge_stats v (stats_or_default g k))"
      "stats_or_default (merge_into l g) k = merge_stats v (stats_or_default g k)"
      by (simp_all add: stats_or_default_def lookup_merge_into [OF d])
    with ih Some show ?thesis by (simp add: entries_of_simps)
  qed
qed

lemma fold_update_count:
  "count (fold update_stats vs s) = count s + of_nat (length vs)"
  by (induction vs arbitrary: s) (simp_all add: update_stats_fields)

lemma fold_update_total:
  "total (fold update_stats vs s) = fsum (total s) vs"
  unfolding fsum_def by (induction vs arbitrary: s) (simp_all add: update_stats_fields)

lemma merge_stats_min_key:
  "temp_min l \<noteq> NaN \<Longrightarrow> temp_min g \<noteq> NaN \<Longrightarrow>
   temp_min (merge_stats l g) \<noteq> NaN \<and>
   fkey (temp_min (merge_stats l g)) = min (fkey (temp_min g)) (fkey (temp_min l))"
  by (auto simp: merge_stats_fields flt_fkey min_def)

lemma merge_stats_max_key:
  "temp_max l \<noteq> NaN \<Longrightarrow> temp_max g \<noteq> NaN \<Longrightarrow>
   temp_max (merge_stats l g) \<noteq> NaN \<and>
   fkey (temp_max (merge_stats l g)) = max (fkey (temp_max g)) (fkey (temp_max l))"
  by (auto simp: merge_stats_fields flt_fkey max_def)

lemma fold_merge_count:
  "count (fold merge_stats es s) = count s + sum_list (map count es)"
  by (induction es arbitrary: s) (simp_all add: merge_stats_fields add.assoc)

lemma fold_merge_total:
  "total (fold merge_stats es s) = fsum (total s) (map total es)"
  unfolding fsum_def by (induction es arbitrary: s) (simp_all add: merge_stats_fields)

lemma fold_merge_min_key:
  "\<forall>e \<in> set es. temp_min e \<noteq> NaN \<Longrightarrow> temp_min s \<noteq> NaN \<Longrightarrow>
   temp_min (fold merge_stats es s) \<noteq> NaN \<and>
   fkey (temp_min (fold merge_stats es s)) =
     Min (insert (fkey (temp_min s)) ((\<lambda>e. fkey (temp_min e)) ` set es))"
proof (induction es arbitrary: s)
  case Nil
  then show ?case by simp
next
  case (Cons e es)
  from Cons.prems have e: "temp_min e \<noteq> NaN" and es: "\<forall>e \<in> set es. temp_min e \<noteq> NaN"
    by simp_all
  from merge_stats_min_key [OF e Cons.prems(2)]
  have a: "temp_min (merge_stats e s) \<noteq> NaN"
    and b: "fkey (temp_min (merge_stats e s)) = min (fkey (temp_min s)) (fkey (temp_min e))"
    by simp_all
  from Cons.IH [OF es a] b show ?case
    by (simp add: Min_insert_min)
qed

lemma fold_merge_max_key:
  "\<forall>e \<in> set es. temp_max e \<noteq> NaN \<Longrightarrow> temp_max s \<noteq> NaN \<Longrightarrow>
   temp_max (fold merge_stats es s) \<noteq> NaN \<and>
   fkey (temp_max (fold merge_stats es s)) =
     Max (insert (fkey (temp_max s)) ((\<lambda>e. fkey (temp_max e)) ` set es))"
proof (induction es arbitrary: s)
  case Nil
  then show ?case by simp
next
  case (Cons e es)
  from Cons.prems have e: "temp_max e \<noteq> NaN" and es: "\<forall>e \<in> set es. temp_max e \<noteq> NaN"
    by simp_all
  from merge_stats_max_key [OF e Cons.prems(2)]
  have a: "temp_max (merge_stats e s) \<noteq> NaN"
    and b: "fkey (temp_max (merge_stats e s)) = max (fkey (temp_max s)) (fkey (temp_max e))"
    by simp_all
  from Cons.IH [OF es a] b show ?case
    by (simp add: Max_insert_max)
qed

lemma mset_entries_of:
  "mset (entries_of k ls) =
     image_mset (\<lambda>l. the (lookup l k)) (filter_mset (\<lambda>l. lookup l k \<noteq> None) (mset ls))"
  by (simp add: entries_of_def List.map_filter_def comp_def)

lemma entries_of_mem:
  "e \<in> set (entries_of k ls) \<Longrightarrow> \<exists>l \<in> set ls. (k, e) \<in> set l"
proof -
  assume "e \<in> set (entries_of k ls)"
  then obtain l where l: "l \<in> set ls" and "lookup l k = Some e"
    by (auto simp: entries_of_def List.map_filter_def)
  then have "(k, e) \<in> set l" by (simp add: lookup_Some_mem)
  with l show ?thesis by blast
qed

lemma merge_order_count_min_max:
  assumes "\<forall>t \<in> set ts. table_ok t" and "mset ts' = mset ts"
  shows "rel_option same_count_min_max
           (lookup (fold merge_into ts []) k) (lookup (fold merge_into ts' []) k)"
proof -
  from assms have ok': "\<forall>t \<in> set ts'. table_ok t" by (metis set_mset_mset)
  have ms: "mset (entries_of k ts') = mset (entries_of k ts)"
    by (simp add: mset_entries_of assms(2))
  then have st: "set (entries_of k ts') = set (entries_of k ts)" by (metis set_mset_mset)
  from ms have em: "entries_of k ts' = [] \<longleftrightarrow> entries_of k ts = []"
    by (metis mset_zero_iff)
  have l: "lookup (fold merge_into ts []) k =
      (if entries_of k ts = [] then None
       else Some (fold merge_stats (entries_of k ts) default_data))"
    using assms(1) by (simp add: lookup_fold_merge_into table_ok_def stats_or_default_def)
  have l': "lookup (fold merge_into ts' []) k =
      (if entries_of k ts' = [] then None
       else Some (fold merge_stats (entries_of k ts') default_data))"
    using ok' by (simp add: lookup_fold_merge_into table_ok_def stats_or_default_def)
  show ?thesis
  proof (cases "entries_of k ts = []")
    case True
    with em l l' show ?thesis by simp
  next
    case False
    have nn: "\<forall>e \<in> set (entries_of k ts). temp_min e \<noteq> NaN \<and> temp_max e \<noteq> NaN"
    proof
      fix e assume "e \<in> set (entries_of k ts)"
      then obtain t where "t \<in> set ts" "(k, e) \<in> set t" by (auto dest: entries_of_mem)
      with assms(1) have "\<forall>p \<in> set t. temp_min (snd p) \<noteq> NaN \<and> temp_max (snd p) \<noteq> NaN"
        by (simp add: table_ok_def)
      with \<open>(k, e) \<in> set t\<close> show "temp_min e \<noteq> NaN \<and> temp_max e \<noteq> NaN"
        by force
    qed
    have d: "temp_min default_data \<noteq> NaN" "temp_max default_data \<noteq> NaN"
      by (simp_all add: default_data_def)
    define a where "a = fold merge_stats (entries_of k ts) default_data"
    define b where "b = fold merge_stats (entries_of k ts') default_data"
    have "sum_list (map count (entries_of k ts')) = sum_list (map count (entries_of k ts))"
      using ms by (metis mset_map sum_mset_sum_list)
    then have c: "count a = count b" by (simp add: a_def b_def fold_merge_count)
    from fold_merge_min_key [OF _ d(1), of "entries_of k ts"] nn
    have amin: "temp_min a \<noteq> NaN"
      "fkey (temp_min a) = Min (insert (fkey (temp_min default_data)) ((\<lambda>e. fkey (temp_min e)) ` set (entries_of k ts)))"
      by (simp_all add: a_def)
    from fold_merge_min_key [OF _ d(1), of "entries_of k ts'"] nn st
    have bmin: "temp_min b \<noteq> NaN"
      "fkey (temp_min b) = Min (insert (fkey (temp_min default_data)) ((\<lambda>e. fkey (temp_min e)) ` set (entries_of k ts)))"
      by (simp_all add: b_def)
    from fold_merge_max_key [OF _ d(2), of "entries_of k ts"] nn
    have amax: "temp_max a \<noteq> NaN"
      "fkey (temp_max a) = Max (insert (fkey (temp_max default_data)) ((\<lambda>e. fkey (temp_max e)) ` set (entries_of k ts)))"
      by (simp_all add: a_def)
    from fold_merge_max_key [OF _ d(2), of "entries_of k ts'"] nn st
    have bmax: "temp_max b \<noteq> NaN"
      "fkey (temp_max b) = Max (insert (fkey (temp_max default_data)) ((\<lambda>e. fkey (temp_max e)) ` set (entries_of k ts)))"
      by (simp_all add: b_def)
    from c amin bmin amax bmax have "same_count_min_max a b"
      by (simp add: same_count_min_max_def feq_fkey)
    with False em l l' show ?thesis by (simp add: a_def b_def)
  qed
qed

lemma values_of_concat: "values_of k (concat gs) = concat (map (values_of k) gs)"
  by (induction gs) (simp_all add: values_of_def)

lemma values_of_append: "values_of k (xs @ ys) = values_of k xs @ values_of k ys"
  by (simp add: values_of_def)

lemma entries_of_aggregate:
  "entries_of k (map aggregate gs) =
     map (\<lambda>g. fold update_stats (values_of k g) default_data)
         (filter (\<lambda>g. values_of k g \<noteq> []) gs)"
  by (induction gs) (simp_all add: entries_of_simps lookup_aggregate)

lemma group_counts:
  "sum_list (map (\<lambda>g. (of_nat (length (values_of k g)) :: 64 word))
                 (filter (\<lambda>g. values_of k g \<noteq> []) gs)) =
   of_nat (length (values_of k (concat gs)))"
  by (induction gs) (simp_all add: values_of_append, simp add: values_of_def)

lemma Min_insert_Un:
  fixes a :: "'a :: linorder"
  assumes "finite A" and "finite B"
  shows "Min (insert a (A \<union> B)) = min (Min (insert a A)) (Min (insert a B))"
proof -
  have "insert a (A \<union> B) = insert a A \<union> insert a B" by auto
  moreover have "Min (insert a A \<union> insert a B) = min (Min (insert a A)) (Min (insert a B))"
    using assms by (intro Min_Un) simp_all
  ultimately show ?thesis by simp
qed

lemma Max_insert_Un:
  fixes a :: "'a :: linorder"
  assumes "finite A" and "finite B"
  shows "Max (insert a (A \<union> B)) = max (Max (insert a A)) (Max (insert a B))"
proof -
  have "insert a (A \<union> B) = insert a A \<union> insert a B" by auto
  moreover have "Max (insert a A \<union> insert a B) = max (Max (insert a A)) (Max (insert a B))"
    using assms by (intro Max_Un) simp_all
  ultimately show ?thesis by simp
qed

lemma group_mins:
  fixes a :: "'a :: linorder" and f :: "'b \<Rightarrow> 'a"
  shows "Min (insert a ((\<lambda>g. Min (insert a (f ` set g))) ` set (filter (\<lambda>g. g \<noteq> []) gs))) =
         Min (insert a (f ` set (concat gs)))"
proof (induction gs)
  case Nil
  show ?case by simp
next
  case (Cons g gs)
  show ?case
  proof (cases "g = []")
    case True
    with Cons.IH show ?thesis by simp
  next
    case False
    have "Min (insert a (f ` set (concat (g # gs)))) =
          Min (insert a (f ` set g \<union> f ` set (concat gs)))"
      by (simp add: image_Un)
    also have "\<dots> = min (Min (insert a (f ` set g))) (Min (insert a (f ` set (concat gs))))"
      by (intro Min_insert_Un) simp_all
    also have "\<dots> = min (Min (insert a (f ` set g)))
        (Min (insert a ((\<lambda>g. Min (insert a (f ` set g))) ` set (filter (\<lambda>g. g \<noteq> []) gs))))"
      by (simp only: Cons.IH)
    also have "\<dots> = Min (insert (Min (insert a (f ` set g)))
        (insert a ((\<lambda>g. Min (insert a (f ` set g))) ` set (filter (\<lambda>g. g \<noteq> []) gs))))"
      by (subst Min_insert) simp_all
    finally show ?thesis using False by (simp add: insert_commute)
  qed
qed

lemma group_maxs:
  fixes a :: "'a :: linorder" and f :: "'b \<Rightarrow> 'a"
  shows "Max (insert a ((\<lambda>g. Max (insert a (f ` set g))) ` set (filter (\<lambda>g. g \<noteq> []) gs))) =
         Max (insert a (f ` set (concat gs)))"
proof (induction gs)
  case Nil
  show ?case by simp
next
  case (Cons g gs)
  show ?case
  proof (cases "g = []")
    case True
    with Cons.IH show ?thesis by simp
  next
    case False
    have "Max (insert a (f ` set (concat (g # gs)))) =
          Max (insert a (f ` set g \<union> f ` set (concat gs)))"
      by (simp add: image_Un)
    also have "\<dots> = max (Max (insert a (f ` set g))) (Max (insert a (f ` set (concat gs))))"
      by (intro Max_insert_Un) simp_all
    also have "\<dots> = max (Max (insert a (f ` set g)))
        (Max (insert a ((\<lambda>g. Max (insert a (f ` set g))) ` set (filter (\<lambda>g. g \<noteq> []) gs))))"
      by (simp only: Cons.IH)
    also have "\<dots> = Max (insert (Max (insert a (f ` set g)))
        (insert a ((\<lambda>g. Max (insert a (f ` set g))) ` set (filter (\<lambda>g. g \<noteq> []) gs))))"
      by (subst Max_insert) simp_all
    finally show ?thesis using False by (simp add: insert_commute)
  qed
qed

lemma entries_of_aggregate':
  "entries_of k (map aggregate gs) =
     map (\<lambda>vs. fold update_stats vs default_data)
         (filter (\<lambda>vs. vs \<noteq> []) (map (values_of k) gs))"
  by (simp add: entries_of_aggregate filter_map comp_def)

lemma group_counts':
  "sum_list (map (\<lambda>vs. (of_nat (length vs) :: 64 word)) (filter (\<lambda>vs. vs \<noteq> []) vss)) =
   of_nat (length (concat vss))"
  by (induction vss) simp_all

text \<open>
  A float sum in which no addition rounds is the exact sum of the values, and the exact sum
  does not depend on the grouping.
\<close>

lemma fsum_exact:
  "exact_fsum (Fin x) vs \<Longrightarrow> fsum (Fin x) vs = Fin (x + sum_list (map fval vs))"
proof (induction vs arbitrary: x)
  case Nil
  show ?case by (simp add: fsum_def)
next
  case (Cons v vs x)
  note ab = Cons.prems [unfolded exact_fsum.simps fval.simps]
  from ab have a: "fadd (Fin x) v = Fin (x + fval v)" by (rule conjunct1)
  from ab have "exact_fsum (fadd (Fin x) v) vs" by (rule conjunct2)
  then have b: "exact_fsum (Fin (x + fval v)) vs" by (simp only: a)
  from Cons.IH [OF b] a show ?case by (simp add: fsum_def add.assoc)
qed

lemma group_sums:
  "sum_list (map (\<lambda>g. sum_list (map fval g)) (filter (\<lambda>vs. vs \<noteq> []) vss)) =
   sum_list (map fval (concat vss))"
  by (induction vss) simp_all

text \<open>
  Claim C2, as amended. Take a list of records whose values are values \<open>parse_float\<close>
  returns, and groups that together hold the same records, each as often (in any order).
  Aggregate each group on its own and merge the tables. For every key the result has an
  entry exactly when the single sequential pass over the list has one, with the same count
  and with the same minimum and maximum (as float values). The sum of the single pass is
  the float sum of the values in order; the merged sum is the float sum of the float sums
  of the groups. The two sums are equal whenever no addition rounds, in the single pass, in
  the groups and in the merge; when an addition rounds they can differ.
\<close>

theorem grouped_aggregation:
  assumes "\<forall>r \<in> set whole. \<exists>str len. parse_float str len = Inr (snd r)"
    and "mset (concat gs) = mset whole"
  shows "rel_option
           (\<lambda>m w. same_count_min_max m w
              \<and> total w = fsum (Fin 0) (values_of k whole)
              \<and> total m = fsum (Fin 0) (map (fsum (Fin 0))
                                          (filter (\<lambda>vs. vs \<noteq> []) (map (values_of k) gs)))
              \<and> (no_rounding k gs whole \<longrightarrow> total m = total w))
           (lookup (fold merge_into (map aggregate gs) []) k)
           (lookup (aggregate whole) k)"
proof -
  define vss where "vss = map (values_of k) gs"
  define G where "G = filter (\<lambda>vs. vs \<noteq> []) vss"
  define es where "es = map (\<lambda>vs. fold update_stats vs default_data) G"
  define vs where "vs = values_of k (concat gs)"
  define ws where "ws = values_of k whole"
  define K where "K = fkey (Fin 99)"
  define K' where "K' = fkey (Fin (- 99))"
  have vs_concat: "vs = concat vss" by (simp add: vs_def vss_def values_of_concat)
  have es_eq: "entries_of k (map aggregate gs) = es"
    by (simp add: es_def G_def vss_def entries_of_aggregate')
  have "mset ws = mset vs"
    unfolding ws_def vs_def values_of_def mset_map mset_filter assms(2) ..
  then have ws_set: "set ws = set vs" and ws_len: "length ws = length vs"
    by (metis set_mset_mset, metis size_mset)
  then have ws_empty: "ws = [] \<longleftrightarrow> vs = []" by (metis length_0_conv)
  from assms(2) have "set (concat gs) = set whole" by (metis set_mset_mset)
  have nn: "\<forall>v \<in> set vs. v \<noteq> NaN"
  proof
    fix v assume "v \<in> set vs"
    then obtain r where "r \<in> set (concat gs)" "v = snd r"
      unfolding vs_def values_of_def by auto
    with assms(1) \<open>set (concat gs) = set whole\<close>
    obtain str len where "parse_float str len = Inr v" by blast
    then show "v \<noteq> NaN" by (rule parse_float_not_nan)
  qed
  from nn ws_set have nnw: "\<forall>v \<in> set ws. v \<noteq> NaN" by simp
  have nnG: "\<forall>v \<in> set g. v \<noteq> NaN" if "g \<in> set G" for g
    using that nn unfolding G_def vs_concat by auto
  have d: "temp_min default_data \<noteq> NaN" "temp_max default_data \<noteq> NaN"
    "fkey (temp_min default_data) = K" "fkey (temp_max default_data) = K'"
    "count default_data = 0" "total default_data = Fin 0"
    by (simp_all add: default_data_def K_def K'_def)
  have merged: "lookup (fold merge_into (map aggregate gs) []) k =
      (if es = [] then None else Some (fold merge_stats es default_data))"
    using lookup_fold_merge_into [of "map aggregate gs" "[]" k]
    by (simp add: aggregate_distinct es_eq stats_or_default_def)
  have whole: "lookup (aggregate whole) k =
      (if vs = [] then None else Some (fold update_stats ws default_data))"
    by (simp add: lookup_aggregate ws_def [symmetric] ws_empty)
  have empty: "es = [] \<longleftrightarrow> vs = []"
    by (auto simp: es_def G_def vs_concat filter_empty_conv)
  show ?thesis
  proof (cases "vs = []")
    case True
    with empty merged whole show ?thesis by simp
  next
    case False
    define m where "m = fold merge_stats es default_data"
    define w where "w = fold update_stats ws default_data"
    have "count m = sum_list (map count es)"
      by (simp add: m_def fold_merge_count d)
    also have "\<dots> = sum_list (map (\<lambda>vs. of_nat (length vs)) G)"
      by (simp add: es_def comp_def fold_update_count d)
    also have "\<dots> = of_nat (length vs)"
      unfolding G_def vs_concat by (rule group_counts')
    also have "\<dots> = count w" by (simp add: w_def fold_update_count d ws_len)
    finally have c: "count m = count w" .
    have emin: "temp_min e \<noteq> NaN" and emax: "temp_max e \<noteq> NaN" if "e \<in> set es" for e
    proof -
      from that obtain g where g: "g \<in> set G" and e: "e = fold update_stats g default_data"
        by (auto simp: es_def)
      from fold_update_min_key [OF nnG [OF g] d(1)] e show "temp_min e \<noteq> NaN" by simp
      from fold_update_max_key [OF nnG [OF g] d(2)] e show "temp_max e \<noteq> NaN" by simp
    qed
    have img_min: "(\<lambda>e. fkey (temp_min e)) ` set es = (\<lambda>g. Min (insert K (fkey ` set g))) ` set G"
    proof -
      have "fkey (temp_min (fold update_stats g default_data)) = Min (insert K (fkey ` set g))"
        if "g \<in> set G" for g
        using fold_update_min_key [OF nnG [OF that] d(1)] by (simp add: d)
      then show ?thesis by (simp add: es_def image_image cong: image_cong)
    qed
    have img_max: "(\<lambda>e. fkey (temp_max e)) ` set es = (\<lambda>g. Max (insert K' (fkey ` set g))) ` set G"
    proof -
      have "fkey (temp_max (fold update_stats g default_data)) = Max (insert K' (fkey ` set g))"
        if "g \<in> set G" for g
        using fold_update_max_key [OF nnG [OF that] d(2)] by (simp add: d)
      then show ?thesis by (simp add: es_def image_image cong: image_cong)
    qed
    from fold_merge_min_key [OF _ d(1), of es] emin
    have mmin: "temp_min m \<noteq> NaN"
      and "fkey (temp_min m) = Min (insert K ((\<lambda>e. fkey (temp_min e)) ` set es))"
      by (simp_all add: m_def d)
    then have "fkey (temp_min m) = Min (insert K (fkey ` set vs))"
      unfolding img_min G_def vs_concat by (simp only: group_mins)
    moreover from fold_update_min_key [OF nnw d(1)]
    have wmin: "temp_min w \<noteq> NaN" and "fkey (temp_min w) = Min (insert K (fkey ` set vs))"
      by (simp_all add: w_def d ws_set)
    ultimately have kmin: "fkey (temp_min m) = fkey (temp_min w)" by simp
    from fold_merge_max_key [OF _ d(2), of es] emax
    have mmax: "temp_max m \<noteq> NaN"
      and "fkey (temp_max m) = Max (insert K' ((\<lambda>e. fkey (temp_max e)) ` set es))"
      by (simp_all add: m_def d)
    then have "fkey (temp_max m) = Max (insert K' (fkey ` set vs))"
      unfolding img_max G_def vs_concat by (simp only: group_maxs)
    moreover from fold_update_max_key [OF nnw d(2)]
    have wmax: "temp_max w \<noteq> NaN" and "fkey (temp_max w) = Max (insert K' (fkey ` set vs))"
      by (simp_all add: w_def d ws_set)
    ultimately have kmax: "fkey (temp_max m) = fkey (temp_max w)" by simp
    have same: "same_count_min_max m w"
      using c kmin kmax mmin wmin mmax wmax by (simp add: same_count_min_max_def feq_fkey)
    have tw: "total w = fsum (Fin 0) ws"
      by (simp add: w_def fold_update_total d)
    have tm: "total m = fsum (Fin 0) (map (fsum (Fin 0)) G)"
      by (simp add: m_def fold_merge_total d es_def comp_def fold_update_total)
    have ex: "total m = total w" if nr: "no_rounding k gs whole"
    proof -
      from nr have e1: "exact_fsum (Fin 0) ws"
        and e2: "\<forall>g \<in> set vss. exact_fsum (Fin 0) g"
        and e3: "exact_fsum (Fin 0) (map (fsum (Fin 0)) G)"
        by (simp_all add: no_rounding_def ws_def vss_def G_def list_all_iff)
      from fsum_exact [OF e1] have w': "fsum (Fin 0) ws = Fin (sum_list (map fval ws))" by simp
      have each: "fsum (Fin 0) g = Fin (sum_list (map fval g))" if "g \<in> set G" for g
      proof -
        from that e2 have "exact_fsum (Fin 0) g" by (simp add: G_def)
        from fsum_exact [OF this] show ?thesis by simp
      qed
      then have "map (\<lambda>x. fval (fsum (Fin 0) x)) G = map (\<lambda>g. sum_list (map fval g)) G"
        by simp
      with fsum_exact [OF e3]
      have "fsum (Fin 0) (map (fsum (Fin 0)) G) = Fin (sum_list (map (\<lambda>g. sum_list (map fval g)) G))"
        by (simp add: comp_def)
      also have "sum_list (map (\<lambda>g. sum_list (map fval g)) G) = sum_list (map fval vs)"
        unfolding G_def vs_concat by (rule group_sums)
      also have "sum_list (map fval vs) = sum_list (map fval ws)"
        using \<open>mset ws = mset vs\<close> by (metis mset_map sum_mset_sum_list)
      finally show ?thesis by (simp add: tm tw w')
    qed
    from False empty merged whole same tw tm ex show ?thesis
      by (simp add: m_def w_def ws_def G_def vss_def)
  qed
qed

text \<open>
  Claim C2 as stated fails for the sum: the records \<open>A;0.1\<close>, \<open>A;0.1\<close>, \<open>A;0.5\<close> summed in
  one pass give \<open>11744051 / 2 ^ 24\<close>, the group of the first merged with the group of the
  other two gives \<open>11744052 / 2 ^ 24\<close>. The same happens in a run: the file of the
  three lines \<open>A;0.1000000\<close>, \<open>A;0.1\<close>, \<open>A;0.5\<close> is cut at a newline for two workers, and
  its sum with two workers differs from its sum with one.
\<close>

theorem grouped_sum_differs:
  "lookup (aggregate (concat c2_groups)) ''A'' =
       Some \<lparr>count = 3, total = Fin (11744051 / 16777216),
             temp_min = Fin (13421773 / 134217728), temp_max = Fin (1 / 2)\<rparr>
   \<and> lookup (fold merge_into (map aggregate c2_groups) []) ''A'' =
       Some \<lparr>count = 3, total = Fin (2936013 / 4194304),
             temp_min = Fin (13421773 / 134217728), temp_max = Fin (1 / 2)\<rparr>
   \<and> \<not> feq (Fin (11744051 / 16777216)) (Fin (2936013 / 4194304))
   \<and> chunks (length c2_data) 2 = [(0, 12), (12, 24)]
   \<and> main_run c2_data 1 [0] =
       Inr [(''A'', \<lparr>count = 3, total = Fin (11744051 / 16777216),
                      temp_min = Fin (13421773 / 134217728), temp_max = Fin (1 / 2)\<rparr>)]
   \<and> main_run c2_data 2 [0, 1] =
       Inr [(''A'', \<lparr>count = 3, total = Fin (2936013 / 4194304),
                      temp_min = Fin (13421773 / 134217728), temp_max = Fin (1 / 2)\<rparr>)]"
  by code_simp

text \<open>
  The values of these three records are values \<open>parse_float\<close> returns, and an addition
  rounds in the single pass over them already.
\<close>

lemma c2_parsed:
  "parse_float ''0.1'' 3 = Inr (Fin (13421773 / 134217728))"
  "parse_float ''0.5'' 3 = Inr (Fin (1 / 2))"
  by code_simp+

lemma c2_groups_round:
  "\<not> no_rounding ''A'' c2_groups (concat c2_groups)"
  "\<not> exact_fsum (Fin 0) (values_of ''A'' (concat c2_groups))"
  by code_simp+

text \<open>
  The theorem at the records \<open>A;-3\<close>, \<open>A;12.5\<close>, \<open>A;20\<close>, grouped as \<open>12.5\<close> and \<open>-3\<close>, \<open>20\<close>: no
  addition rounds, and both sums are \<open>29.5\<close>.
\<close>

lemma c2_exact_parsed:
  "parse_float ''12.5'' 4 = Inr (Fin (25 / 2))"
  "parse_float ''-3'' 2 = Inr (Fin (- 3))"
  "parse_float ''20'' 2 = Inr (Fin 20)"
  by code_simp+

lemma c2_exact_no_rounding: "no_rounding ''A'' c2_exact_groups c2_exact_whole"
  by code_simp

theorem grouped_aggregation_witness:
  "parse_float ''12.5'' 4 = Inr (Fin (25 / 2))
   \<and> parse_float ''-3'' 2 = Inr (Fin (- 3))
   \<and> parse_float ''20'' 2 = Inr (Fin 20)
   \<and> mset (concat c2_exact_groups) = mset c2_exact_whole
   \<and> no_rounding ''A'' c2_exact_groups c2_exact_whole
   \<and> rel_option (\<lambda>m w. same_count_min_max m w \<and> total m = total w)
        (lookup (fold merge_into (map aggregate c2_exact_groups) []) ''A'')
        (lookup (aggregate c2_exact_whole) ''A'')
   \<and> lookup (aggregate c2_exact_whole) ''A'' =
        Some \<lparr>count = 3, total = Fin (59 / 2), temp_min = Fin (- 3), temp_max = Fin 20\<rparr>"
proof -
  have a: "\<forall>r \<in> set c2_exact_whole. \<exists>str len. parse_float str len = Inr (snd r)"
    using c2_exact_parsed by (auto simp: c2_exact_whole_def)
  have b: "mset (concat c2_exact_groups) = mset c2_exact_whole"
    by (simp add: c2_exact_groups_def c2_exact_whole_def add_mset_commute)
  note c = c2_exact_no_rounding
  have d: "lookup (aggregate c2_exact_whole) ''A'' =
        Some \<lparr>count = 3, total = Fin (59 / 2), temp_min = Fin (- 3), temp_max = Fin 20\<rparr>"
    by code_simp
  from grouped_aggregation [OF a b, of "''A''"] c
  have e: "rel_option (\<lambda>m w. same_count_min_max m w \<and> total m = total w)
        (lookup (fold merge_into (map aggregate c2_exact_groups) []) ''A'')
        (lookup (aggregate c2_exact_whole) ''A'')"
    by (auto elim!: option.rel_mono_strong)
  from c2_exact_parsed b c d e show ?thesis by blast
qed

section \<open>The order of the merges\<close>

lemma process_line_record:
  assumes "sv_data line + sv_size line \<le> length data"
    and "find_char CHR '';'' (sv_bytes data line) = Some p"
    and "parse_float (drop (sv_data line + p + 1) data) (sv_size line - p - 1) = Inr v"
  shows "process_line data line t = Inr (add_record (take p (sv_bytes data line), v) t)"
  using assms by (simp add: process_line_def add_record_def Let_def)

lemma modify_at_set:
  "(k', v') \<in> set (modify_at k f t) \<Longrightarrow>
   (k', v') \<in> set t \<or> v' = f default_data \<or> (\<exists>v. (k, v) \<in> set t \<and> v' = f v)"
proof (induction t)
  case Nil
  then show ?case by simp
next
  case (Cons p t)
  obtain a b where p: "p = (a, b)" by (cases p)
  show ?case
  proof (cases "a = k")
    case True
    with p Cons.prems show ?thesis by auto
  next
    case False
    with p Cons.prems have "(k', v') = (a, b) \<or> (k', v') \<in> set (modify_at k f t)" by simp
    then show ?thesis
    proof
      assume "(k', v') = (a, b)"
      with p show ?thesis by simp
    next
      assume "(k', v') \<in> set (modify_at k f t)"
      from Cons.IH [OF this] show ?thesis by auto
    qed
  qed
qed

lemma process_line_table_ok:
  assumes "process_line data line t = Inr t'" and "table_ok t"
  shows "table_ok t'"
proof (cases "t' = t")
  case True
  with assms(2) show ?thesis by simp
next
  case False
  with assms(1) obtain k v where t': "t' = modify_at k (update_stats v) t"
    and pf: "\<exists>str len. parse_float str len = Inr v"
    by (auto simp: process_line_def Let_def split: if_splits option.splits sum.splits)
  from pf have v: "v \<noteq> NaN" by (auto dest: parse_float_not_nan)
  have keep: "temp_min (update_stats v s) \<noteq> NaN \<and> temp_max (update_stats v s) \<noteq> NaN"
    if "temp_min s \<noteq> NaN \<and> temp_max s \<noteq> NaN" for s
    using that v by (simp add: update_stats_fields)
  have d: "temp_min default_data \<noteq> NaN \<and> temp_max default_data \<noteq> NaN"
    by (simp add: default_data_def)
  have "temp_min (snd q) \<noteq> NaN \<and> temp_max (snd q) \<noteq> NaN" if q: "q \<in> set t'" for q
  proof -
    obtain a b where ab: "q = (a, b)" by (cases q)
    from q ab t' have "(a, b) \<in> set (modify_at k (update_stats v) t)" by simp
    from modify_at_set [OF this] assms(2) keep d ab show ?thesis
      by (force simp: table_ok_def)
  qed
  moreover from assms(2) t' have "distinct (map fst t')"
    by (simp add: table_ok_def modify_at_distinct)
  ultimately show ?thesis by (simp add: table_ok_def)
qed

lemma process_chunk_from_table_ok:
  "process_chunk_from data end i t = Inr t' \<Longrightarrow> table_ok t \<Longrightarrow> table_ok t'"
proof (induction data "end" i t rule: process_chunk_from.induct)
  case (1 data "end" i t)
  note unfold = process_chunk_from.simps [of data "end" i t]
  show ?case
  proof (cases "i < end")
    case False
    with "1.prems" unfold show ?thesis by simp
  next
    case True
    from True "1.prems"(1) unfold obtain j where sl: "scan_line data end i = Inr j"
      by (auto split: sum.splits)
    with True "1.prems"(1) unfold obtain t1
      where pl: "process_line data \<lparr>sv_data = i, sv_size = j - i\<rparr> t = Inr t1"
      by (auto split: sum.splits)
    with True sl "1.prems"(1) unfold have rest: "process_chunk_from data end (j + 1) t1 = Inr t'"
      by simp
    from process_line_table_ok [OF pl "1.prems"(2)] have "table_ok t1" .
    from "1.IH" [OF True sl pl rest this] show ?thesis .
  qed
qed

lemma worker_table_ok: "worker data r = Inr t \<Longrightarrow> table_ok t"
  using process_chunk_from_table_ok [of data "snd r" "fst r" "[]" t]
  by (simp add: worker_def process_chunk_def table_ok_def)

text \<open>
  Claim C5, as amended. Merging the tables of the workers in any two orders gives, for
  every key, an entry in both results or in neither, with the same count and the same
  minimum and maximum (as float values). Nothing is claimed about the sum.
\<close>

theorem merge_order_independent:
  assumes "\<forall>t \<in> set ts. \<exists>data r. worker data r = Inr t" and "mset ts' = mset ts"
  shows "rel_option same_count_min_max
           (lookup (fold merge_into ts []) k) (lookup (fold merge_into ts' []) k)"
proof -
  from assms(1) have "\<forall>t \<in> set ts. table_ok t" by (auto dest: worker_table_ok)
  then show ?thesis using assms(2) by (rule merge_order_count_min_max)
qed

lemma c5_workers:
  "worker c5_data (0, 6) = Inr c5_t0"
  "worker c5_data (6, 12) = Inr c5_t0"
  "worker c5_data (12, 18) = Inr c5_t2"
  by code_simp+

text \<open>
  Claim C5 as stated fails for the sum. The 18 bytes of the three lines \<open>A;0.1\<close>,
  \<open>A;0.1\<close>, \<open>A;0.5\<close> are read by three workers, cut at the newlines; when the workers
  merge in the order 0, 1, 2 the sum of
  \<open>A\<close> is \<open>((0 + 0.1f) + 0.1f) + 0.5f = 11744051 / 2 ^ 24\<close>, in the order 1, 2, 0 it is
  \<open>((0 + 0.1f) + 0.5f) + 0.1f = 11744052 / 2 ^ 24\<close>: float addition is not associative.
\<close>

theorem merge_order_changes_sum:
  "chunks (length c5_data) 3 = [(0, 6), (6, 12), (12, 18)]
   \<and> main_run c5_data 3 [0, 1, 2] =
       Inr [(''A'', \<lparr>count = 3, total = Fin (11744051 / 16777216),
                      temp_min = Fin (13421773 / 134217728), temp_max = Fin (1 / 2)\<rparr>)]
   \<and> main_run c5_data 3 [1, 2, 0] =
       Inr [(''A'', \<lparr>count = 3, total = Fin (2936013 / 4194304),
                      temp_min = Fin (13421773 / 134217728), temp_max = Fin (1 / 2)\<rparr>)]
   \<and> Fin (11744051 / 16777216) \<noteq> Fin (2936013 / 4194304)
   \<and> \<not> feq (Fin (11744051 / 16777216)) (Fin (2936013 / 4194304))"
  by code_simp

theorem merge_order_independent_witness:
  "worker c5_data (0, 6) = Inr c5_t0 \<and> worker c5_data (6, 12) = Inr c5_t0
   \<and> worker c5_data (12, 18) = Inr c5_t2
   \<and> mset [c5_t0, c5_t2, c5_t0] = mset [c5_t0, c5_t0, c5_t2]
   \<and> rel_option same_count_min_max
        (lookup (fold merge_into [c5_t0, c5_t0, c5_t2] []) ''A'')
        (lookup (fold merge_into [c5_t0, c5_t2, c5_t0] []) ''A'')"
proof -
  have a: "\<forall>t \<in> set [c5_t0, c5_t0, c5_t2]. \<exists>data r. worker data r = Inr t"
    using c5_workers by auto
  have b: "mset [c5_t0, c5_t2, c5_t0] = mset [c5_t0, c5_t0, c5_t2]"
    by (simp add: add_mset_commute)
  from merge_order_independent [OF a b, of "''A''"] c5_workers b show ?thesis by blast
qed

section \<open>The value of a decimal literal\<close>

lemma is_digit_facts:
  assumes "is_digit c"
  shows "c \<noteq> CHR ''.''" and "c \<noteq> CHR ''-''" and "digit_of c = f32_of_int (digit_value c)"
  using assms by (auto simp: is_digit_def digit_of_def digit_value_def char_to_int_def)

lemma int_loop_digits:
  assumes "len \<le> length str" and "i + length ds \<le> len"
    and "take (length ds) (drop i str) = ds"
    and "list_all is_digit ds"
    and "i + length ds = len \<or> str ! (i + length ds) = CHR ''.''"
  shows "int_loop str len r i = Inr (foldl int_step r ds, i + length ds)"
  using assms(2-5)
proof (induction ds arbitrary: r i)
  case Nil
  show ?case
  proof (cases "i < len")
    case False
    then show ?thesis by (simp add: int_loop.simps [of str len r i])
  next
    case True
    with Nil.prems(4) have "str ! i = CHR ''.''" by simp
    with True assms(1) show ?thesis
      by (simp add: int_loop.simps [of str len r i] read_at_def)
  qed
next
  case (Cons d ds)
  from Cons.prems(1) have i: "i < len" by simp
  with assms(1) have il: "i < length str" by simp
  from Cons.prems(2) il have d: "str ! i = d" and rest: "take (length ds) (drop (i + 1) str) = ds"
    by (simp_all add: Cons_nth_drop_Suc [symmetric])
  from Cons.prems(3) have dig: "is_digit d" and digs: "list_all is_digit ds" by simp_all
  from Cons.prems(1) have b: "i + 1 + length ds \<le> len" by simp
  from Cons.prems(4) have e: "i + 1 + length ds = len \<or> str ! (i + 1 + length ds) = CHR ''.''"
    by simp
  from Cons.IH [OF b rest digs e, of "int_step r d"]
  have "int_loop str len (int_step r d) (i + 1) = Inr (foldl int_step (int_step r d) ds, i + 1 + length ds)" .
  moreover have "fadd (fmul r (Fin 10)) (digit_of d) = int_step r d"
    using is_digit_facts(3) [OF dig] by (simp add: int_step_def)
  ultimately show ?case
    using i il d is_digit_facts(1) [OF dig]
    by (simp add: int_loop.simps [of str len r i] read_at_def)
qed

lemma frac_loop_digits:
  assumes "len \<le> length str" and "i + length fs = len"
    and "take (length fs) (drop i str) = fs"
    and "list_all is_digit fs"
  shows "frac_loop str len r p i = Inr (fst (foldl frac_step (r, p) fs))"
  using assms(2-4)
proof (induction fs arbitrary: r p i)
  case Nil
  then show ?case by (simp add: frac_loop.simps [of str len r p])
next
  case (Cons d fs)
  from Cons.prems(1) have i: "i < len" by simp
  with assms(1) have il: "i < length str" by simp
  from Cons.prems(2) il have d: "str ! i = d" and rest: "take (length fs) (drop (i + 1) str) = fs"
    by (simp_all add: Cons_nth_drop_Suc [symmetric])
  from Cons.prems(3) have dig: "is_digit d" and digs: "list_all is_digit fs" by simp_all
  from Cons.prems(1) have b: "i + 1 + length fs = len" by simp
  define p' where "p' = fmul p tenth"
  from Cons.IH [OF b rest digs, of "fadd r (fmul (f32_of_int (digit_value d)) p')" p']
  have "frac_loop str len (fadd r (fmul (f32_of_int (digit_value d)) p')) p' (i + 1) =
        Inr (fst (foldl frac_step (fadd r (fmul (f32_of_int (digit_value d)) p'), p') fs))" .
  moreover have "frac_step (r, p) d = (fadd r (fmul (f32_of_int (digit_value d)) p'), p')"
    by (simp add: frac_step_def Let_def p'_def)
  ultimately show ?case
    using i il d is_digit_facts(3) [OF dig]
    by (simp add: frac_loop.simps [of str len r p i] read_at_def Let_def p'_def)
qed

lemma parse_float_literal_aux:
  fixes sg ds :: "char list" and fs :: "char list option"
  defines "fp \<equiv> (case fs of None \<Rightarrow> [] | Some f \<Rightarrow> CHR ''.'' # f)"
  defines "s \<equiv> sg @ ds @ fp"
  assumes sg: "sg = [] \<or> sg = ''-''"
    and ds: "list_all is_digit ds"
    and fs: "pred_option (list_all is_digit) fs"
    and ne: "s \<noteq> []"
  shows "parse_float (s @ rest) (length s) =
           Inr (let r = int_part ds;
                    r' = (case fs of None \<Rightarrow> r | Some f \<Rightarrow> frac_part r f)
                in if sg = ''-'' then fneg r' else r')"
proof -
  define str where "str = s @ rest"
  define len where "len = length s"
  define i0 where "i0 = length sg"
  have len_le: "len \<le> length str" by (simp add: str_def len_def)
  have str_eq: "str = sg @ ds @ fp @ rest" by (simp add: str_def s_def)
  have len_eq: "len = i0 + length ds + length fp" by (simp add: len_def s_def i0_def)
  from ne have r0: "read_at str 0 = Inr (str ! 0)" by (simp add: read_at_def str_def)
  have first: "str ! 0 = CHR ''-'' \<longleftrightarrow> sg = ''-''"
  proof (cases "sg = []")
    case False
    with sg show ?thesis by (simp add: str_eq)
  next
    case True
    show ?thesis
    proof (cases ds)
      case (Cons d ds')
      with ds have "is_digit d" by simp
      with True Cons is_digit_facts(2) [of d] show ?thesis by (simp add: str_eq)
    next
      case Nil
      with True ne obtain f where "fs = Some f" by (cases fs) (auto simp: s_def fp_def)
      with True Nil show ?thesis by (simp add: str_eq fp_def)
    qed
  qed
  have i0: "i0 = (if str ! 0 = CHR ''-'' then 1 else 0)"
    using sg by (auto simp: first i0_def)
  have tk: "take (length ds) (drop i0 str) = ds" by (simp add: str_eq i0_def)
  have stop: "i0 + length ds = len \<or> str ! (i0 + length ds) = CHR ''.''"
  proof (cases fs)
    case None
    then show ?thesis by (simp add: len_eq fp_def)
  next
    case (Some f)
    have "str ! (i0 + length ds) = (fp @ rest) ! 0"
      by (simp add: str_eq i0_def nth_append)
    with Some show ?thesis by (simp add: fp_def)
  qed
  have il: "int_loop str len (Fin 0) i0 = Inr (int_part ds, i0 + length ds)"
    unfolding int_part_def
    by (rule int_loop_digits [OF len_le _ tk ds stop]) (simp add: len_eq)
  have il1: "sg = ''-'' \<Longrightarrow> int_loop str len (Fin 0) (Suc 0) = Inr (int_part ds, i0 + length ds)"
    using il by (simp add: i0_def)
  have il0: "sg \<noteq> ''-'' \<Longrightarrow> int_loop str len (Fin 0) 0 = Inr (int_part ds, i0 + length ds)"
    using il sg by (simp add: i0_def)
  show ?thesis
  proof (cases fs)
    case None
    then have "i0 + length ds = len" by (simp add: len_eq fp_def)
    with r0 il0 il1 None show ?thesis
      unfolding parse_float_def str_def [symmetric] len_def [symmetric]
      by (simp add: Let_def first)
  next
    case (Some f)
    define i where "i = i0 + length ds"
    from Some have lt: "i < len" and len': "i + 1 + length f = len"
      by (simp_all add: len_eq fp_def i_def)
    from Some stop lt have dot: "str ! i = CHR ''.''" by (simp add: i_def)
    from lt len_le have ri: "read_at str i = Inr (CHR ''.'')" by (simp add: read_at_def dot)
    have "drop (i + 1) str = f @ rest" using Some by (simp add: str_eq i_def i0_def fp_def)
    then have tf: "take (length f) (drop (i + 1) str) = f" by simp
    from fs Some have fd: "list_all is_digit f" by simp
    from frac_loop_digits [OF len_le len' tf fd, of "int_part ds" "Fin 1"]
    have fl: "frac_loop str len (int_part ds) (Fin 1) (i + 1) = Inr (frac_part (int_part ds) f)"
      by (simp add: frac_part_def)
    from r0 il0 il1 lt ri fl Some show ?thesis
      unfolding parse_float_def str_def [symmetric] len_def [symmetric]
      by (simp add: Let_def first i_def [symmetric])
  qed
qed

lemma parse_float_literal:
  assumes "list_all is_digit ds" and "pred_option (list_all is_digit) fs"
    and "literal_bytes neg ds fs \<noteq> []"
  shows "parse_float (literal_bytes neg ds fs @ rest) (length (literal_bytes neg ds fs)) =
           Inr (literal_value neg ds fs)
       \<and> int_part [] = Fin 0 \<and> frac_part r [] = r"
proof -
  have sg: "(if neg then ''-'' else []) = [] \<or> (if neg then ''-'' else []) = ''-''" by simp
  from parse_float_literal_aux [OF sg assms(1,2), of rest] assms(3)
  have "parse_float (literal_bytes neg ds fs @ rest) (length (literal_bytes neg ds fs)) =
           Inr (literal_value neg ds fs)"
    by (simp add: literal_bytes_def literal_value_def Let_def)
  then show ?thesis by (simp add: int_part_def frac_part_def)
qed

lemma pow2_less_imp: "pow2 a < pow2 b \<Longrightarrow> a < b"
proof (rule ccontr)
  assume "pow2 a < pow2 b" and "\<not> a < b"
  then have "b \<le> a" by simp
  then have "pow2 b \<le> pow2 a" by (rule pow2_mono)
  with \<open>pow2 a < pow2 b\<close> show False by simp
qed

lemma pow2_24: "pow2 24 = 16777216"
  by (simp add: pow2_def)

lemma rat_of_int_bound:
  assumes "\<bar>n\<bar> < 16777216"
  shows "\<bar>rat_of_int n\<bar> < 16777216"
proof -
  from assms have "rat_of_int \<bar>n\<bar> < rat_of_int 16777216" by (simp only: of_int_less_iff)
  then show ?thesis by simp
qed

lemma rne_of_int:
  assumes "\<bar>n\<bar> < 16777216"
  shows "rne (of_int n) = of_int n"
proof (cases "n = 0")
  case True
  then show ?thesis by (simp add: rne_def)
next
  case False
  define q :: rat where "q = of_int n"
  define e where "e = ulp_exp q"
  from False have q0: "q \<noteq> 0" and qpos: "0 < \<bar>q\<bar>" by (simp_all add: q_def)
  from rat_of_int_bound [OF assms] have "\<bar>q\<bar> < pow2 24" by (simp only: pow2_24 q_def)
  with flog2_lower [OF qpos] have "pow2 (flog2 \<bar>q\<bar>) < pow2 24" by (rule le_less_trans)
  then have "flog2 \<bar>q\<bar> < 24" by (rule pow2_less_imp)
  then have e0: "e \<le> 0" unfolding e_def ulp_exp_def by linarith
  define M :: int where "M = 2 ^ nat (0 - e)"
  have p0: "pow2 0 = 1" by (simp add: pow2_def)
  from pow2_diff_int [OF e0] have one: "of_int M * pow2 e = 1" unfolding M_def p0 by simp
  have "q / pow2 e = q * (of_int M * pow2 e) / pow2 e" by (simp only: one mult_1_right)
  also have "\<dots> = q * of_int M" using pow2_pos [of e] by simp
  also have "\<dots> = of_int (n * M)" by (simp add: q_def)
  finally have "q / pow2 e = of_int (n * M)" .
  then have "round_half_even (q / pow2 e) = n * M" by (simp only: round_half_even_of_int)
  then have "rne q = of_int (n * M) * pow2 e" using q0 by (simp only: rne_def e_def if_False)
  also have "\<dots> = of_int n * (of_int M * pow2 e)" by simp
  also have "\<dots> = q" by (simp only: one q_def mult_1_right)
  finally show ?thesis by (simp only: q_def)
qed

lemma f32_round_of_int:
  assumes "\<bar>n\<bar> < 16777216" and "n \<noteq> 0"
  shows "f32_round (of_int n) = Fin (of_int n)"
proof -
  define r :: rat where "r = of_int n"
  from rat_of_int_bound [OF assms(1)] have "\<bar>r\<bar> < 16777216" by (simp only: r_def)
  then have "\<not> 2 ^ 128 \<le> r" "\<not> r \<le> - (2 ^ 128)" by (simp_all add: abs_less_iff)
  moreover from assms(2) have "r \<noteq> 0" by (simp add: r_def)
  moreover have "rne r = r" unfolding r_def using assms(1) by (rule rne_of_int)
  ultimately have "f32_round r = Fin r"
    by (simp add: f32_round_def Let_def)
  then show ?thesis by (simp only: r_def)
qed

lemma f32_of_int_exact: "\<bar>n\<bar> < 16777216 \<Longrightarrow> f32_of_int n = Fin (of_int n)"
  by (cases "n = 0") (simp_all add: f32_of_int_def f32_round_of_int)

lemma f32_round_of_nat:
  assumes "n < 16777216" and "n \<noteq> 0"
  shows "f32_round (of_nat n) = Fin (of_nat n)"
proof -
  from assms(1) have "\<bar>int n\<bar> < 16777216" by simp
  moreover from assms(2) have "int n \<noteq> 0" by simp
  ultimately have "f32_round (of_int (int n)) = Fin (of_int (int n))" by (rule f32_round_of_int)
  then show ?thesis by simp
qed

lemma fadd_nat_exact:
  assumes "a + b < 16777216"
  shows "fadd (Fin (of_nat a)) (Fin (of_nat b)) = Fin (of_nat (a + b))"
proof (cases "a + b = 0")
  case True
  then show ?thesis by (simp add: fadd_def is_inf_def)
next
  case False
  have s: "(of_nat a :: rat) + of_nat b = of_nat (a + b)" by simp
  from False have nz: "(of_nat (a + b) :: rat) \<noteq> 0" by (simp only: of_nat_eq_0_iff not_False_eq_True)
  from f32_round_of_nat [OF assms False] nz show ?thesis
    unfolding fadd_def s by (simp add: is_inf_def)
qed

lemma fmul_nat_exact:
  assumes "a * b < 16777216"
  shows "fmul (Fin (of_nat a)) (Fin (of_nat b)) = Fin (of_nat (a * b))"
proof (cases "a * b = 0")
  case True
  then show ?thesis by (auto simp: fmul_def is_inf_def)
next
  case False
  have s: "(of_nat a :: rat) * of_nat b = of_nat (a * b)" by simp
  from False have nz: "(of_nat (a * b) :: rat) \<noteq> 0" by (simp only: of_nat_eq_0_iff not_False_eq_True)
  from f32_round_of_nat [OF assms False] nz show ?thesis
    unfolding fmul_def fval.simps s by (simp add: is_inf_def)
qed

lemma decimal_step_mono: "n \<le> foldl decimal_step n ds"
proof (induction ds arbitrary: n)
  case Nil
  show ?case by simp
next
  case (Cons d ds)
  have "n \<le> decimal_step n d" by (simp add: decimal_step_def)
  also have "\<dots> \<le> foldl decimal_step (decimal_step n d) ds" by (rule Cons.IH)
  finally show ?case by simp
qed

lemma digit_value_nat: "is_digit c \<Longrightarrow> digit_value c = int (nat (digit_value c)) \<and> nat (digit_value c) < 10"
  by (auto simp: is_digit_def digit_value_def)

lemma int_step_exact:
  assumes "is_digit d" and "decimal_step n d < 16777216"
  shows "int_step (Fin (of_nat n)) d = Fin (of_nat (decimal_step n d))"
proof -
  define v where "v = nat (digit_value d)"
  from digit_value_nat [OF assms(1)] have dv: "digit_value d = int v" and v: "v < 10"
    by (simp_all add: v_def)
  from assms(2) have b: "n * 10 + v < 16777216" by (simp add: decimal_step_def v_def mult.commute)
  then have m: "n * 10 < 16777216" by simp
  have "f32_of_int (digit_value d) = Fin (of_nat v)"
    using v by (simp add: dv f32_of_int_exact)
  moreover have "fmul (Fin (of_nat n)) (Fin 10) = Fin (of_nat (n * 10))"
    using fmul_nat_exact [OF m] by simp
  moreover have "fadd (Fin (of_nat (n * 10))) (Fin (of_nat v)) = Fin (of_nat (n * 10 + v))"
    using b by (rule fadd_nat_exact)
  ultimately show ?thesis
    by (simp add: int_step_def decimal_step_def v_def mult.commute)
qed

lemma int_part_exact_from:
  "list_all is_digit ds \<Longrightarrow> foldl decimal_step n ds < 16777216 \<Longrightarrow>
   foldl int_step (Fin (of_nat n)) ds = Fin (of_nat (foldl decimal_step n ds))"
proof (induction ds arbitrary: n)
  case Nil
  show ?case by simp
next
  case (Cons d ds)
  from Cons.prems(1) have d: "is_digit d" and ds: "list_all is_digit ds" by simp_all
  from Cons.prems(2) have f: "foldl decimal_step (decimal_step n d) ds < 16777216" by simp
  with decimal_step_mono [of "decimal_step n d" ds] have "decimal_step n d < 16777216" by simp
  from int_step_exact [OF d this] Cons.IH [OF ds f] show ?case by simp
qed

lemma int_part_exact:
  assumes "list_all is_digit ds" and "decimal ds < 16777216"
  shows "int_part ds = Fin (of_nat (decimal ds))"
  using int_part_exact_from [OF assms(1), of 0] assms(2)
  by (simp add: int_part_def decimal_def)

text \<open>
  Claim C4, as amended. For every non-empty span that is a decimal literal, whatever bytes
  follow it in memory, \<open>parse_float\<close> returns the value of the literal computed in float
  arithmetic as the specification describes. An empty digit sequence contributes 0 to its
  part, and an integer part below \<open>2 ^ 24\<close> is the exact integer.
\<close>

theorem parse_float_literal_value:
  assumes "list_all is_digit ds" and "pred_option (list_all is_digit) fs"
    and "literal_bytes neg ds fs \<noteq> []"
  shows "parse_float (literal_bytes neg ds fs @ rest) (length (literal_bytes neg ds fs)) =
           Inr (literal_value neg ds fs)
       \<and> int_part [] = Fin 0 \<and> frac_part r [] = r
       \<and> (decimal ds < 16777216 \<longrightarrow> int_part ds = Fin (of_nat (decimal ds)))"
  using parse_float_literal [OF assms, of rest r] int_part_exact [OF assms(1)] by simp

theorem parse_float_literal_value_witness:
  "list_all is_digit [] \<and> pred_option (list_all is_digit) (Some ''5'')
   \<and> literal_bytes False [] (Some ''5'') = ''.5''
   \<and> parse_float ''.5'' 2 = Inr (Fin (1 / 2))
   \<and> list_all is_digit ''5'' \<and> pred_option (list_all is_digit) (Some [])
   \<and> literal_bytes False ''5'' (Some []) = ''5.''
   \<and> parse_float ''5.'' 2 = Inr (Fin 5)
   \<and> decimal ''5'' < 16777216 \<and> int_part ''5'' = Fin 5"
proof -
  have a: "list_all is_digit []" "pred_option (list_all is_digit) (Some ''5'')"
    "list_all is_digit ''5''" "pred_option (list_all is_digit) (Some [])"
    by (simp_all add: is_digit_def)
  have b: "literal_bytes False [] (Some ''5'') = ''.5''" "literal_bytes False ''5'' (Some []) = ''5.''"
    by (simp_all add: literal_bytes_def)
  have c: "literal_value False [] (Some ''5'') = Fin (1 / 2)" "literal_value False ''5'' (Some []) = Fin 5"
    by code_simp+
  have d: "decimal ''5'' = 5"
    by (simp add: decimal_def decimal_step_def digit_value_def)
  from parse_float_literal_value [OF a(1,2), of False "[]" "Fin 0"]
  have e: "parse_float ''.5'' 2 = Inr (Fin (1 / 2))" by (simp add: b c numeral_2_eq_2)
  from parse_float_literal_value [OF a(3,4), of False "[]" "Fin 0"]
  have f: "parse_float ''5.'' 2 = Inr (Fin 5)" and g: "int_part ''5'' = Fin 5"
    by (simp_all add: b c d numeral_2_eq_2)
  from a b d e f g show ?thesis by simp
qed

text \<open>
  Claim C4 as stated fails on the empty span, which the grammar admits: its value is 0, but
  \<open>parse_float\<close> reads the byte at index 0, outside the span, before it looks at the
  length. At the end of the file that read is out of bounds; followed by a minus sign the
  result is the negative zero. And the value returned is the result of the rounded
  operations, not always the float nearest to the literal: \<open>0.01\<close> gives
  \<open>10737419 / 2 ^ 30\<close>, the nearest float is \<open>5368709 / 2 ^ 29\<close>, one unit in the last place
  below.
\<close>

theorem parse_float_empty_span:
  "literal_bytes False [] None = []
   \<and> literal_value False [] None = Fin 0
   \<and> parse_float (literal_bytes False [] None) (length (literal_bytes False [] None)) = Inl OutOfBounds
   \<and> parse_float (literal_bytes False [] None @ ''-'') (length (literal_bytes False [] None)) = Inr NegZero
   \<and> parse_float ''0.01'' 4 = Inr (Fin (10737419 / 1073741824))
   \<and> f32_round (1 / 100) = Fin (5368709 / 536870912)"
  by code_simp

end
